theory Spec2Isabelle
  imports Main
begin

section \<open>Data model\<close>

text \<open>
  The module \<open>spyll/hunspell/algo/lookup.py\<close> is embedded function by function. A Python
  \<open>str\<close> is a \<open>string\<close>, a Python \<open>set\<close> of flags is a \<open>flag set\<close>, an
  \<open>Optional\<close> field is an \<open>option\<close>, a generator is the list of the items it yields
  together with the exception that ends it, if any.
\<close>

type_synonym flag = string

datatype error = TypeError | ValueError | IndexError | RecursionError

datatype Cap = NO | INIT | ALLCAP | HUH | HUHINIT

datatype CompoundPos = BEGIN | MIDDLE | END

text \<open>An affix entry of \<open>data.aff\<close> (\<open>Prefix\<close> and \<open>Suffix\<close> have the same fields).\<close>

record affix =
  flag :: flag
  strip :: string
  add :: string
  condition :: string
  crossproduct :: bool
  flags :: "flag set"

text \<open>A dictionary word of \<open>data.dic\<close>: the fields \<open>stem\<close> and \<open>flags\<close> of \<open>Word\<close>.\<close>

record dword =
  w_stem :: string
  w_flags :: "flag set"

text \<open>The fields of \<open>data.aff\<close> that the module reads. A flag field is \<open>None\<close> when
  the directive is absent; the two numeric limits are counts; \<open>SFX\<close> and \<open>PFX\<close> keep the
  order of the dictionary they are, of which the module reads the values only.\<close>

record aff =
  SFX :: "(flag \<times> affix list) list"
  PFX :: "(flag \<times> affix list) list"
  FORBIDDENWORD :: "flag option"
  NOSUGGEST :: "flag option"
  KEEPCASE :: "flag option"
  NEEDAFFIX :: "flag option"
  ONLYINCOMPOUND :: "flag option"
  COMPOUNDFLAG :: "flag option"
  COMPOUNDBEGIN :: "flag option"
  COMPOUNDMIDDLE :: "flag option"
  COMPOUNDLAST :: "flag option"
  COMPOUNDPERMITFLAG :: "flag option"
  COMPOUNDFORBIDFLAG :: "flag option"
  COMPOUNDMIN :: nat
  COMPOUNDWORDSMAX :: "nat option"
  CHECKCOMPOUNDCASE :: bool
  CHECKCOMPOUNDTRIPLE :: bool
  CHECKCOMPOUNDREP :: bool
  CHECKCOMPOUNDPATTERN :: "(string \<times> string \<times> string option) list"
  ICONV :: "(string \<times> string) list"
  REP :: "(string \<times> string) list"
  BREAK :: "string list"
  COMPOUNDRULE :: "string list"

text \<open>
  What \<open>pmt.replchars\<close> yields: the module keeps the candidates that are \<open>str\<close> and
  skips every other value.
\<close>

datatype candidate = CStr string | COther "string list"

text \<open>
  The collaborators that are not part of the module are parameters of the model: the
  dictionary (\<open>dic.homonyms\<close>, with its \<open>ignorecase\<close> argument), the capitalization helper
  (\<open>cap.guess\<close>, \<open>cap.variants\<close>), \<open>pmt.replchars\<close>, \<open>str.upper\<close>, and Python's \<open>re\<close>
  engine, which is given a pattern (the string handed to \<open>re.compile\<close>) and a text:
  \<open>re_search\<close> tells whether \<open>search\<close> finds a match, \<open>re_sub\<close> is \<open>sub\<close> with the
  replacement as second argument, \<open>re_fullmatch\<close> tells whether \<open>fullmatch\<close> succeeds and
  \<open>re_finditer\<close> lists \<open>(m.start(1), m.end(1))\<close> for the matches of \<open>finditer\<close>.
  \<open>recursion_limit\<close> is the number of nested calls of the compound search that the
  interpreter allows before it raises \<open>RecursionError\<close>.
\<close>

record lib =
  homonyms :: "string \<Rightarrow> bool \<Rightarrow> dword list"
  guess :: "string \<Rightarrow> Cap"
  variants :: "string \<Rightarrow> Cap \<times> string list"
  replchars :: "string \<Rightarrow> (string \<times> string) list \<Rightarrow> candidate list"
  upper :: "string \<Rightarrow> string"
  re_search :: "string \<Rightarrow> string \<Rightarrow> bool"
  re_sub :: "string \<Rightarrow> string \<Rightarrow> string \<Rightarrow> string"
  re_fullmatch :: "string \<Rightarrow> string \<Rightarrow> bool"
  re_finditer :: "string \<Rightarrow> string \<Rightarrow> (nat \<times> nat) list"
  recursion_limit :: nat

record CompoundRule =
  rule_text :: string
  rule_flags :: "flag list"
  rule_re :: string
  partial_re :: string

record CompoundPattern =
  left :: string
  right :: string
  replacement :: "string option"
  left_stem :: string
  left_flag :: "string option"
  right_stem :: string
  right_flag :: "string option"

record WordForm =
  form_text :: string
  stem :: string
  prefix :: "affix option"
  suffix :: "affix option"
  prefix2 :: "affix option"
  suffix2 :: "affix option"

type_synonym Compound = "WordForm list"

text \<open>The state of an \<open>Analyzer\<close> after \<open>compile\<close>; the two tries are maps from keys to leaves.\<close>

record Analyzer =
  aff :: aff
  suffixes :: "string \<rightharpoonup> (affix \<times> string) list"
  prefixes :: "string \<rightharpoonup> (affix \<times> string) list"
  compoundrules :: "CompoundRule list"
  compoundpatterns :: "CompoundPattern list"
  breakpatterns :: "string list"

text \<open>A generator: the items it yields, in order, and the exception that ends it, if one does.\<close>

type_synonym 'a gen = "'a list \<times> error option"


section \<open>Python values\<close>

text \<open>Truthiness of an optional string (\<open>if aff.KEEPCASE\<close>) and of an optional number.\<close>

definition truthy :: "string option \<Rightarrow> bool" where
  "truthy f = (case f of None \<Rightarrow> False | Some s \<Rightarrow> s \<noteq> [])"

definition truthy_num :: "nat option \<Rightarrow> bool" where
  "truthy_num n = (case n of None \<Rightarrow> False | Some k \<Rightarrow> k \<noteq> 0)"

text \<open>\<open>f in flags\<close> where \<open>f\<close> may be \<open>None\<close>, which no set of flags contains.\<close>

definition flag_in :: "flag option \<Rightarrow> flag set \<Rightarrow> bool" where
  "flag_in f S = (case f of None \<Rightarrow> False | Some x \<Rightarrow> x \<in> S)"

definition startswith :: "string \<Rightarrow> string \<Rightarrow> bool" where
  "startswith s p = (take (length p) s = p)"

definition endswith :: "string \<Rightarrow> string \<Rightarrow> bool" where
  "endswith s p = (length p \<le> length s \<and> drop (length s - length p) s = p)"

text \<open>\<open>s[-n:]\<close> for a positive \<open>n\<close>.\<close>

definition last_chars :: "nat \<Rightarrow> string \<Rightarrow> string" where
  "last_chars n s = drop (length s - n) s"

text \<open>\<open>word.replace(i, o)\<close>: every occurrence from the left, none overlapping; an empty
  \<open>i\<close> matches before every character and at the end.\<close>

fun replace_from :: "string \<Rightarrow> string \<Rightarrow> string \<Rightarrow> string" where
  "replace_from [] out w = w"
| "replace_from (a # as) out [] = []"
| "replace_from (a # as) out (c # cs) =
     (if startswith (c # cs) (a # as) then out @ replace_from (a # as) out (drop (length as) cs)
      else c # replace_from (a # as) out cs)"

definition str_replace :: "string \<Rightarrow> string \<Rightarrow> string \<Rightarrow> string" where
  "str_replace w i out =
     (if i = [] then out @ concat (map (\<lambda>c. c # out) w) else replace_from i out w)"

text \<open>\<open>itertools.groupby\<close>: runs of consecutive items with the same key.\<close>

function groupby :: "('a \<Rightarrow> 'k) \<Rightarrow> 'a list \<Rightarrow> ('k \<times> 'a list) list" where
  "groupby f [] = []"
| "groupby f (x # xs) =
     (f x, x # takeWhile (\<lambda>y. f y = f x) xs) # groupby f (dropWhile (\<lambda>y. f y = f x) xs)"
  by pat_completeness auto
termination
  by (relation "measure (\<lambda>(f, xs). length xs)") (auto simp: length_dropWhile_le less_Suc_eq_le)

section \<open>Compilation\<close>

text \<open>\<open>Affixes.lookup\<close>: the leaves of every key that is a prefix of the query, shortest key first.\<close>

definition trie_lookup :: "(string \<rightharpoonup> 'v list) \<Rightarrow> string \<Rightarrow> 'v list" where
  "trie_lookup t key =
     concat (map (\<lambda>n. case t (take n key) of None \<Rightarrow> [] | Some vs \<Rightarrow> vs) [0..<Suc (length key)])"

text \<open>
  \<open>re.findall(r'(\[.+\]|[^\[])', condition)\<close>: at an opening bracket the token runs to the
  last closing bracket that \<open>.+\<close> can reach (\<open>.\<close> matches no newline, and at least one
  character stands between the brackets); a bracket that opens no such token is skipped;
  every other character is a token.
\<close>

definition bracket_end :: "string \<Rightarrow> nat option" where
  "bracket_end cs =
     (let run = takeWhile (\<lambda>c. c \<noteq> CHR 0x0A) cs;
          js = filter (\<lambda>j. run ! j = CHR '']'') [1..<length run]
      in if js = [] then None else Some (last js))"

function cond_tokens :: "string \<Rightarrow> string list" where
  "cond_tokens [] = []"
| "cond_tokens (c # cs) =
     (if c = CHR ''[''
      then (case bracket_end cs of
              Some j \<Rightarrow> (c # take (Suc j) cs) # cond_tokens (drop (Suc j) cs)
            | None \<Rightarrow> cond_tokens cs)
      else [c] # cond_tokens cs)"
  by pat_completeness auto
termination
  by (relation "measure length") auto

definition suffix_regexp :: "affix \<Rightarrow> string" where
  "suffix_regexp suf =
     (let cond_parts = cond_tokens (condition suf);
          cond_parts = (if strip suf \<noteq> [] then take (length cond_parts - length (strip suf)) cond_parts
                        else cond_parts);
          cond = (if cond_parts \<noteq> [] \<and> cond_parts \<noteq> [''.'']
                  then ''(?<='' @ concat cond_parts @ '')'' else [])
      in cond @ add suf @ ''$'')"

definition prefix_regexp :: "affix \<Rightarrow> string" where
  "prefix_regexp pref =
     (let cond_parts = cond_tokens (condition pref);
          cond_parts = drop (length (strip pref)) cond_parts;
          cond = (if cond_parts \<noteq> [] \<and> cond_parts \<noteq> [''.'']
                  then ''(?='' @ concat cond_parts @ '')'' else [])
      in ''^'' @ add pref @ cond)"

text \<open>The loops of \<open>compile\<close> that fill the tries: a later group with the same key replaces
  the leaf of an earlier one.\<close>

definition fill_trie ::
  "(affix \<Rightarrow> string) \<Rightarrow> (affix \<Rightarrow> string) \<Rightarrow> affix list \<Rightarrow> (string \<rightharpoonup> (affix \<times> string) list)" where
  "fill_trie key regexp entries =
     foldl (\<lambda>t (k, grp). t(k \<mapsto> map (\<lambda>a. (a, regexp a)) grp)) Map.empty (groupby key entries)"

text \<open>
  \<open>CompoundRule.__post_init__\<close>. \<open>rule_parts\<close> is \<open>re.findall(r'[^*?][*?]?', text)\<close>;
  \<open>functools.reduce\<close> without an initial value raises \<open>TypeError\<close> on no parts.
\<close>

definition is_quantifier :: "char \<Rightarrow> bool" where
  "is_quantifier c = (c = CHR ''*'' \<or> c = CHR ''?'')"

fun rule_parts :: "string \<Rightarrow> string list" where
  "rule_parts [] = []"
| "rule_parts [c] = (if is_quantifier c then [] else [[c]])"
| "rule_parts (c # d # cs) =
     (if is_quantifier c then rule_parts (d # cs)
      else if is_quantifier d then [c, d] # rule_parts cs
      else [c] # rule_parts (d # cs))"

definition CompoundRule_init :: "string \<Rightarrow> error + CompoundRule" where
  "CompoundRule_init t =
     (case rev (rule_parts t) of
        [] \<Rightarrow> Inl TypeError
      | p # ps \<Rightarrow> Inr \<lparr>rule_text = t,
                   rule_flags = remdups (map (\<lambda>c. [c]) (filter (\<lambda>c. \<not> is_quantifier c) t)),
                   rule_re = t,
                   partial_re = foldl (\<lambda>res part. part @ ''('' @ res @ '')?'') p ps\<rparr>)"

text \<open>
  \<open>CompoundPattern.__post_init__\<close>: \<open>a, b = s.split('/')\<close> raises \<open>ValueError\<close> unless
  \<open>s\<close> has exactly one slash.
\<close>

definition split_slash :: "string \<Rightarrow> error + string \<times> string option" where
  "split_slash s =
     (if CHR ''/'' \<in> set s
      then (if length (filter (\<lambda>c. c = CHR ''/'') s) = 1
            then Inr (takeWhile (\<lambda>c. c \<noteq> CHR ''/'') s,
                      Some (tl (dropWhile (\<lambda>c. c \<noteq> CHR ''/'') s)))
            else Inl ValueError)
      else Inr (s, None))"

definition CompoundPattern_init :: "string \<times> string \<times> string option \<Rightarrow> error + CompoundPattern" where
  "CompoundPattern_init row =
     (case row of (l, r, rep) \<Rightarrow>
        (case split_slash l of
           Inl e \<Rightarrow> Inl e
         | Inr (ls, lf) \<Rightarrow>
             (case split_slash r of
                Inl e \<Rightarrow> Inl e
              | Inr (rs, rf) \<Rightarrow>
                  Inr \<lparr>left = l, right = r, replacement = rep,
                       left_stem = ls, left_flag = lf, right_stem = rs, right_flag = rf\<rparr>)))"

text \<open>A list comprehension whose element expression may raise.\<close>

fun map_err :: "('a \<Rightarrow> error + 'b) \<Rightarrow> 'a list \<Rightarrow> error + 'b list" where
  "map_err f [] = Inr []"
| "map_err f (x # xs) =
     (case f x of
        Inl e \<Rightarrow> Inl e
      | Inr y \<Rightarrow> (case map_err f xs of Inl e \<Rightarrow> Inl e | Inr ys \<Rightarrow> Inr (y # ys)))"

definition break_regexp :: "string \<Rightarrow> string" where
  "break_regexp pat =
     (if startswith pat ''^'' \<or> endswith pat ''$'' then ''('' @ pat @ '')''
      else ''.('' @ pat @ '').'')"

text \<open>\<open>Analyzer.__init__\<close> with \<open>compile\<close>; \<open>re.compile\<close> keeps the pattern, which the
  engine of \<open>lib\<close> interprets.\<close>

definition compile :: "aff \<Rightarrow> error + Analyzer" where
  "compile a =
     (case map_err CompoundRule_init (COMPOUNDRULE a) of
        Inl e \<Rightarrow> Inl e
      | Inr rules \<Rightarrow>
          (case map_err CompoundPattern_init (CHECKCOMPOUNDPATTERN a) of
             Inl e \<Rightarrow> Inl e
           | Inr pats \<Rightarrow>
               Inr \<lparr>aff = a,
                    suffixes = fill_trie (\<lambda>suf. rev (add suf)) suffix_regexp (concat (map snd (SFX a))),
                    prefixes = fill_trie add prefix_regexp (concat (map snd (PFX a))),
                    compoundrules = rules,
                    compoundpatterns = pats,
                    breakpatterns = map break_regexp (BREAK a)\<rparr>))"


section \<open>Word forms\<close>

definition is_base :: "WordForm \<Rightarrow> bool" where
  "is_base form = (suffix form = None \<and> prefix form = None)"

definition affix_flags :: "WordForm \<Rightarrow> flag set" where
  "affix_flags form =
     (let fs = (case prefix form of Some p \<Rightarrow> flags p | None \<Rightarrow> {})
      in case suffix form of Some s \<Rightarrow> fs \<union> flags s | None \<Rightarrow> fs)"

definition all_affixes :: "WordForm \<Rightarrow> affix list" where
  "all_affixes form = List.map_filter id [prefix2 form, prefix form, suffix form, suffix2 form]"

definition mk_form :: "string \<Rightarrow> string \<Rightarrow> WordForm" where
  "mk_form t s = \<lparr>form_text = t, stem = s, prefix = None, suffix = None, prefix2 = None, suffix2 = None\<rparr>"

definition CompoundPattern_match :: "CompoundPattern \<Rightarrow> WordForm \<Rightarrow> WordForm \<Rightarrow> bool" where
  "CompoundPattern_match pat l r =
     (endswith (stem l) (left_stem pat) \<and> startswith (stem r) (right_stem pat))"

subsection \<open>Affix stripping\<close>

definition good_suffix :: "bool \<Rightarrow> flag option list \<Rightarrow> flag option list \<Rightarrow> affix \<Rightarrow> bool" where
  "good_suffix cross required_flags forbidden_flags suf =
     ((\<not> cross \<or> crossproduct suf) \<and>
      (\<forall>f \<in> set required_flags. flag_in f (flags suf)) \<and>
      (\<forall>f \<in> set forbidden_flags. \<not> flag_in f (flags suf)))"

definition good_prefix :: "flag option list \<Rightarrow> flag option list \<Rightarrow> affix \<Rightarrow> bool" where
  "good_prefix required_flags forbidden_flags pref =
     ((\<forall>f \<in> set required_flags. flag_in f (flags pref)) \<and>
      (\<forall>f \<in> set forbidden_flags. \<not> flag_in f (flags pref)))"

text \<open>The arguments are \<open>word\<close>, \<open>required_flags\<close>, \<open>forbidden_flags\<close>, \<open>nested\<close> and
  \<open>crossproduct\<close>, in the order of the source.\<close>

function desuffix ::
  "lib \<Rightarrow> Analyzer \<Rightarrow> string \<Rightarrow> flag option list \<Rightarrow> flag option list \<Rightarrow> bool \<Rightarrow> bool
     \<Rightarrow> WordForm list" where
  "desuffix L A word required_flags forbidden_flags nested cross =
     concat (map (\<lambda>(suf, regexp).
        (let stm = re_sub L regexp (strip suf) word
         in (mk_form word stm)\<lparr>suffix := Some suf\<rparr> #
            (if \<not> nested
             then map (\<lambda>form2. form2\<lparr>suffix2 := Some suf, form_text := word\<rparr>)
                    (desuffix L A stm (Some (flag suf) # required_flags) forbidden_flags True cross)
             else [])))
       (filter (\<lambda>(suf, regexp). good_suffix cross required_flags forbidden_flags suf
                                  \<and> re_search L regexp word)
          (trie_lookup (suffixes A) (rev word))))"
  by pat_completeness auto
termination
  by (relation "measure (\<lambda>(L, A, w, rq, fb, nested, cross). if nested then 0 else 1)") auto

declare desuffix.simps [simp del]

function deprefix ::
  "lib \<Rightarrow> Analyzer \<Rightarrow> string \<Rightarrow> flag option list \<Rightarrow> flag option list \<Rightarrow> bool
     \<Rightarrow> WordForm list" where
  "deprefix L A word required_flags forbidden_flags nested =
     concat (map (\<lambda>(pref, regexp).
        (let stm = re_sub L regexp (strip pref) word
         in (mk_form word stm)\<lparr>prefix := Some pref\<rparr> #
            (if \<not> nested
             then map (\<lambda>form2. form2\<lparr>prefix2 := Some pref, form_text := word\<rparr>)
                    (deprefix L A stm (Some (flag pref) # required_flags) forbidden_flags True)
             else [])))
       (filter (\<lambda>(pref, regexp). good_prefix required_flags forbidden_flags pref
                                   \<and> re_search L regexp word)
          (trie_lookup (prefixes A) word)))"
  by pat_completeness auto
termination
  by (relation "measure (\<lambda>(L, A, w, rq, fb, nested). if nested then 0 else 1)") auto

declare deprefix.simps [simp del]

text \<open>A form of \<open>deprefix\<close> always has its \<open>prefix\<close>; \<open>form.prefix.crossproduct\<close> reads it.\<close>

definition prefix_crossproduct :: "WordForm \<Rightarrow> bool" where
  "prefix_crossproduct form = (case prefix form of Some p \<Rightarrow> crossproduct p | None \<Rightarrow> False)"

definition try_affix_forms :: "lib \<Rightarrow> Analyzer \<Rightarrow> string \<Rightarrow> CompoundPos option \<Rightarrow> WordForm list" where
  "try_affix_forms L A word compoundpos =
     (let a = aff A;
          suffix_allowed = (case compoundpos of
                              Some p \<Rightarrow> p = END \<or> truthy (COMPOUNDPERMITFLAG a) | None \<Rightarrow> True);
          prefix_allowed = (case compoundpos of
                              Some p \<Rightarrow> p = BEGIN \<or> truthy (COMPOUNDPERMITFLAG a) | None \<Rightarrow> True);
          prefix_required_flags = (case compoundpos of
                              Some p \<Rightarrow> if p = BEGIN then [] else [COMPOUNDPERMITFLAG a] | None \<Rightarrow> []);
          suffix_required_flags = (case compoundpos of
                              Some p \<Rightarrow> if p = END then [] else [COMPOUNDPERMITFLAG a] | None \<Rightarrow> []);
          forbidden_flags = (case compoundpos of
                              Some p \<Rightarrow> if truthy (COMPOUNDFORBIDFLAG a) then [COMPOUNDFORBIDFLAG a] else []
                            | None \<Rightarrow> [])
      in mk_form word word #
         (if suffix_allowed then desuffix L A word suffix_required_flags forbidden_flags False False
          else []) @
         (if prefix_allowed
          then concat (map (\<lambda>form.
                 form #
                 (if suffix_allowed \<and> prefix_crossproduct form
                  then map (\<lambda>form2. form2\<lparr>prefix := prefix form\<rparr>)
                         (desuffix L A (stem form) suffix_required_flags forbidden_flags False True)
                  else []))
                (deprefix L A word prefix_required_flags forbidden_flags False))
          else []))"

subsection \<open>Flag compatibility\<close>

definition have_compatible_flags ::
  "lib \<Rightarrow> Analyzer \<Rightarrow> dword \<Rightarrow> WordForm \<Rightarrow> CompoundPos option \<Rightarrow> Cap \<Rightarrow> bool \<Rightarrow> bool" where
  "have_compatible_flags L A dictionary_word form compoundpos captype allow_nosuggest =
     (let a = aff A;
          all_flags = w_flags dictionary_word \<union> affix_flags form;
          affixes = all_affixes form
      in if \<not> allow_nosuggest \<and> flag_in (NOSUGGEST a) (w_flags dictionary_word) then False
         else if truthy (KEEPCASE a) \<and> flag_in (KEEPCASE a) (w_flags dictionary_word)
                 \<and> captype \<noteq> guess L (w_stem dictionary_word) then False
         else if truthy (NEEDAFFIX a) \<and> flag_in (NEEDAFFIX a) (w_flags dictionary_word)
                 \<and> affixes = [] then False
         else if truthy (NEEDAFFIX a) \<and> affixes \<noteq> []
                 \<and> (\<forall>x \<in> set affixes. flag_in (NEEDAFFIX a) (flags x)) then False
         else if (case prefix form of Some p \<Rightarrow> flag p \<notin> all_flags | None \<Rightarrow> False) then False
         else if (case suffix form of Some s \<Rightarrow> flag s \<notin> all_flags | None \<Rightarrow> False) then False
         else (case compoundpos of
                 None \<Rightarrow> \<not> flag_in (ONLYINCOMPOUND a) all_flags
               | Some p \<Rightarrow>
                   if flag_in (COMPOUNDFLAG a) all_flags then True
                   else (case p of
                           BEGIN \<Rightarrow> flag_in (COMPOUNDBEGIN a) all_flags
                         | END \<Rightarrow> flag_in (COMPOUNDLAST a) all_flags
                         | MIDDLE \<Rightarrow> flag_in (COMPOUNDMIDDLE a) all_flags)))"

subsection \<open>Affix-form lookup\<close>

text \<open>What the body of the loop of \<open>word_forms\<close> yields for one form, after the forbidden check.\<close>

definition forms_of ::
  "lib \<Rightarrow> Analyzer \<Rightarrow> Cap \<Rightarrow> CompoundPos option \<Rightarrow> bool \<Rightarrow> WordForm \<Rightarrow> WordForm list" where
  "forms_of L A captype compoundpos allow_nosuggest form =
     (let exact = filter (\<lambda>w. have_compatible_flags L A w form compoundpos captype allow_nosuggest)
                    (homonyms L (stem form) False)
      in if exact \<noteq> [] then map (\<lambda>w. form) exact
         else map (\<lambda>w. form)
                (filter (\<lambda>w. \<not> (captype \<noteq> ALLCAP \<and> guess L (w_stem w) \<noteq> NO)
                            \<and> have_compatible_flags L A w form compoundpos captype allow_nosuggest)
                   (homonyms L (stem form) True)))"

definition forbidden_stem :: "lib \<Rightarrow> Analyzer \<Rightarrow> CompoundPos option \<Rightarrow> WordForm \<Rightarrow> bool" where
  "forbidden_stem L A compoundpos form =
     ((compoundpos \<noteq> None \<or> \<not> is_base form) \<and>
      (\<exists>dw \<in> set (homonyms L (stem form) False). flag_in (FORBIDDENWORD (aff A)) (w_flags dw)))"

text \<open>The loop of \<open>word_forms\<close> over the forms still to come; \<open>return\<close> ends it.\<close>

fun word_forms_loop ::
  "lib \<Rightarrow> Analyzer \<Rightarrow> Cap \<Rightarrow> CompoundPos option \<Rightarrow> bool \<Rightarrow> WordForm list \<Rightarrow> WordForm list" where
  "word_forms_loop L A captype compoundpos allow_nosuggest [] = []"
| "word_forms_loop L A captype compoundpos allow_nosuggest (form # rest) =
     (if forbidden_stem L A compoundpos form then []
      else forms_of L A captype compoundpos allow_nosuggest form @
           word_forms_loop L A captype compoundpos allow_nosuggest rest)"

definition word_forms ::
  "lib \<Rightarrow> Analyzer \<Rightarrow> string \<Rightarrow> Cap \<Rightarrow> CompoundPos option \<Rightarrow> bool \<Rightarrow> WordForm list" where
  "word_forms L A word captype compoundpos allow_nosuggest =
     word_forms_loop L A captype compoundpos allow_nosuggest (try_affix_forms L A word compoundpos)"


section \<open>Compounds\<close>

subsection \<open>Generators\<close>

text \<open>\<open>itertools.chain\<close> of two generators: the second runs only if the first ends normally.\<close>

definition gen_chain :: "'a gen \<Rightarrow> 'a gen \<Rightarrow> 'a gen" where
  "gen_chain g h = (case snd g of Some e \<Rightarrow> g | None \<Rightarrow> (fst g @ fst h, snd h))"

text \<open>A \<open>for\<close> loop over a list whose body yields from a generator.\<close>

fun gen_for :: "'a list \<Rightarrow> ('a \<Rightarrow> 'b gen) \<Rightarrow> 'b gen" where
  "gen_for [] body = ([], None)"
| "gen_for (x # xs) body = gen_chain (body x) (gen_for xs body)"

definition gen_map :: "('a \<Rightarrow> 'b) \<Rightarrow> 'a gen \<Rightarrow> 'b gen" where
  "gen_map f g = (map f (fst g), snd g)"

definition gen_of_list :: "'a list \<Rightarrow> 'a gen" where
  "gen_of_list xs = (xs, None)"

subsection \<open>Compound rules\<close>

definition relevant_flags :: "CompoundRule \<Rightarrow> flag set list \<Rightarrow> flag list list" where
  "relevant_flags r flag_sets = map (\<lambda>f. filter (\<lambda>x. x \<in> f) (rule_flags r)) flag_sets"

definition CompoundRule_fullmatch :: "lib \<Rightarrow> CompoundRule \<Rightarrow> flag set list \<Rightarrow> bool" where
  "CompoundRule_fullmatch L r flag_sets =
     (\<exists>fc \<in> set (product_lists (relevant_flags r flag_sets)). re_fullmatch L (rule_re r) (concat fc))"

definition CompoundRule_partial_match :: "lib \<Rightarrow> CompoundRule \<Rightarrow> flag set list \<Rightarrow> bool" where
  "CompoundRule_partial_match L r flag_sets =
     (\<exists>fc \<in> set (product_lists (relevant_flags r flag_sets)). re_fullmatch L (partial_re r) (concat fc))"

subsection \<open>The two searches\<close>

definition search_stops :: "aff \<Rightarrow> string \<Rightarrow> 'a list \<Rightarrow> bool" where
  "search_stops a word_rest prev_parts =
     (length word_rest < COMPOUNDMIN a * 2 \<or>
      (truthy_num (COMPOUNDWORDSMAX a) \<and> length prev_parts \<ge> the (COMPOUNDWORDSMAX a)))"

text \<open>The first argument after the analyzer is the number of nested calls still allowed.
  \<open>compound_parts_by_rules\<close> never reads its \<open>allow_nosuggest\<close> argument, which the
  model leaves out; it passes on \<open>rules\<close> as it got them, not the rules that matched.\<close>

fun compound_parts_by_flags ::
  "lib \<Rightarrow> Analyzer \<Rightarrow> nat \<Rightarrow> string \<Rightarrow> WordForm list \<Rightarrow> bool \<Rightarrow> Compound gen" where
  "compound_parts_by_flags L A 0 word_rest prev_parts allow_nosuggest = ([], Some RecursionError)"
| "compound_parts_by_flags L A (Suc n) word_rest prev_parts allow_nosuggest =
     gen_chain
       (if prev_parts \<noteq> []
        then gen_of_list (map (\<lambda>form. [form]) (word_forms L A word_rest NO (Some END) allow_nosuggest))
        else gen_of_list [])
       (if search_stops (aff A) word_rest prev_parts then gen_of_list []
        else gen_for [COMPOUNDMIN (aff A) ..< Suc (length word_rest - COMPOUNDMIN (aff A))]
               (\<lambda>pos. gen_for (word_forms L A (take pos word_rest) NO
                                 (Some (if prev_parts = [] then BEGIN else MIDDLE)) allow_nosuggest)
                  (\<lambda>form. gen_map (\<lambda>rest. form # rest)
                     (compound_parts_by_flags L A n (drop pos word_rest) (prev_parts @ [form])
                        allow_nosuggest))))"

fun compound_parts_by_rules ::
  "lib \<Rightarrow> Analyzer \<Rightarrow> nat \<Rightarrow> string \<Rightarrow> dword list \<Rightarrow> CompoundRule list \<Rightarrow> Compound gen" where
  "compound_parts_by_rules L A 0 word_rest prev_parts rules = ([], Some RecursionError)"
| "compound_parts_by_rules L A (Suc n) word_rest prev_parts rules =
     gen_chain
       (if prev_parts \<noteq> []
        then gen_of_list (map (\<lambda>homonym. [mk_form word_rest word_rest])
               (filter (\<lambda>homonym. \<exists>r \<in> set rules.
                          CompoundRule_fullmatch L r (map w_flags (prev_parts @ [homonym])))
                  (homonyms L word_rest False)))
        else gen_of_list [])
       (if search_stops (aff A) word_rest prev_parts then gen_of_list []
        else gen_for [COMPOUNDMIN (aff A) ..< Suc (length word_rest - COMPOUNDMIN (aff A))]
               (\<lambda>pos. gen_for (homonyms L (take pos word_rest) False)
                  (\<lambda>homonym.
                     if filter (\<lambda>r. CompoundRule_partial_match L r (map w_flags (prev_parts @ [homonym])))
                          rules \<noteq> []
                     then gen_map (\<lambda>rest. mk_form (take pos word_rest) (take pos word_rest) # rest)
                            (compound_parts_by_rules L A n (drop pos word_rest)
                               (prev_parts @ [homonym]) rules)
                     else gen_of_list [])))"

declare compound_parts_by_flags.simps(2) [simp del]

declare compound_parts_by_rules.simps(2) [simp del]

subsection \<open>The filter\<close>

definition triple_at :: "string \<Rightarrow> string \<Rightarrow> bool" where
  "triple_at l r =
     (length (remdups (last_chars 2 l @ take 1 r)) = 1 \<or>
      length (remdups (last_chars 1 l @ take 2 r)) = 1)"

text \<open>\<open>right[0]\<close> and \<open>left[-1]\<close> raise \<open>IndexError\<close> on an empty string.\<close>

definition case_at :: "lib \<Rightarrow> string \<Rightarrow> string \<Rightarrow> error + bool" where
  "case_at L l r =
     (case r of
        [] \<Rightarrow> Inl IndexError
      | rc # _ \<Rightarrow>
          (if l = [] then Inl IndexError
           else Inr ((upper L [rc] = [rc] \<or> upper L [last l] = [last l])
                     \<and> rc \<noteq> CHR ''-'' \<and> last l \<noteq> CHR ''-'')))"

definition rep_at :: "lib \<Rightarrow> Analyzer \<Rightarrow> string \<Rightarrow> string \<Rightarrow> bool" where
  "rep_at L A l r =
     (\<exists>cand \<in> set (replchars L (l @ r) (REP (aff A))).
        case cand of CStr c \<Rightarrow> word_forms L A c NO None True \<noteq> [] | COther x \<Rightarrow> False)"

definition pattern_at :: "Analyzer \<Rightarrow> WordForm \<Rightarrow> WordForm \<Rightarrow> bool" where
  "pattern_at A lp rp =
     (CHECKCOMPOUNDPATTERN (aff A) \<noteq> [] \<and>
      (\<exists>rule \<in> set (compoundpatterns A). CompoundPattern_match rule lp rp))"

text \<open>The body of the inner loop of \<open>bad_compound\<close>: \<open>Inr True\<close> is \<open>return True\<close>,
  \<open>Inr False\<close> goes on with the next pair.\<close>

definition pair_check :: "lib \<Rightarrow> Analyzer \<Rightarrow> WordForm \<Rightarrow> WordForm \<Rightarrow> error + bool" where
  "pair_check L A lp rp =
     (if CHECKCOMPOUNDREP (aff A) \<and> rep_at L A (form_text lp) (form_text rp) then Inr True
      else if CHECKCOMPOUNDTRIPLE (aff A) \<and> triple_at (form_text lp) (form_text rp) then Inr True
      else (case (if CHECKCOMPOUNDCASE (aff A) then case_at L (form_text lp) (form_text rp)
                  else Inr False) of
              Inl e \<Rightarrow> Inl e
            | Inr True \<Rightarrow> Inr True
            | Inr False \<Rightarrow> Inr (pattern_at A lp rp)))"

fun bad_rights :: "lib \<Rightarrow> Analyzer \<Rightarrow> WordForm \<Rightarrow> WordForm list \<Rightarrow> error + bool" where
  "bad_rights L A lp [] = Inr False"
| "bad_rights L A lp (rp # rps) =
     (case pair_check L A lp rp of
        Inl e \<Rightarrow> Inl e
      | Inr True \<Rightarrow> Inr True
      | Inr False \<Rightarrow> bad_rights L A lp rps)"

definition forbid_at :: "lib \<Rightarrow> Analyzer \<Rightarrow> WordForm \<Rightarrow> bool" where
  "forbid_at L A lp =
     (truthy (COMPOUNDFORBIDFLAG (aff A)) \<and>
      (\<exists>dw \<in> set (homonyms L (form_text lp) False).
         flag_in (COMPOUNDFORBIDFLAG (aff A)) (w_flags dw)))"

fun bad_lefts :: "lib \<Rightarrow> Analyzer \<Rightarrow> WordForm list \<Rightarrow> WordForm list \<Rightarrow> error + bool" where
  "bad_lefts L A rights [] = Inr False"
| "bad_lefts L A rights (lp # lps) =
     (if forbid_at L A lp then Inr True
      else (case bad_rights L A lp rights of
              Inl e \<Rightarrow> Inl e
            | Inr True \<Rightarrow> Inr True
            | Inr False \<Rightarrow> bad_lefts L A rights lps))"

definition bad_compound :: "lib \<Rightarrow> Analyzer \<Rightarrow> Compound \<Rightarrow> error + bool" where
  "bad_compound L A compound = bad_lefts L A (tl compound) (butlast compound)"

text \<open>The generator expression that keeps the compounds that are not bad.\<close>

fun keep_good :: "lib \<Rightarrow> Analyzer \<Rightarrow> Compound list \<Rightarrow> Compound gen" where
  "keep_good L A [] = ([], None)"
| "keep_good L A (c # cs) =
     (case bad_compound L A c of
        Inl e \<Rightarrow> ([], Some e)
      | Inr b \<Rightarrow> gen_chain (gen_of_list (if b then [] else [c])) (keep_good L A cs))"

definition compound_candidates :: "lib \<Rightarrow> Analyzer \<Rightarrow> string \<Rightarrow> bool \<Rightarrow> Compound gen" where
  "compound_candidates L A word allow_nosuggest =
     gen_chain
       (if truthy (COMPOUNDBEGIN (aff A)) \<or> truthy (COMPOUNDFLAG (aff A))
        then compound_parts_by_flags L A (recursion_limit L) word [] allow_nosuggest
        else gen_of_list [])
       (if compoundrules A \<noteq> []
        then compound_parts_by_rules L A (recursion_limit L) word [] (compoundrules A)
        else gen_of_list [])"

definition compound_parts :: "lib \<Rightarrow> Analyzer \<Rightarrow> string \<Rightarrow> bool \<Rightarrow> Compound gen" where
  "compound_parts L A word allow_nosuggest =
     (let cands = compound_candidates L A word allow_nosuggest
      in gen_chain (keep_good L A (fst cands)) ([], snd cands))"

section \<open>The recognizer\<close>

datatype analysis = AForm WordForm | ACompound Compound

definition analyze_internal :: "lib \<Rightarrow> Analyzer \<Rightarrow> bool \<Rightarrow> string \<Rightarrow> Cap \<Rightarrow> analysis gen" where
  "analyze_internal L A allow_nosuggest variant captype =
     gen_chain (gen_of_list (map AForm (word_forms L A variant captype None allow_nosuggest)))
               (gen_map ACompound (compound_parts L A variant allow_nosuggest))"

text \<open>Without \<open>capitalization\<close> the source calls \<open>analyze_internal(word)\<close>, one argument
  short: the call raises \<open>TypeError\<close>.\<close>

definition analyze :: "lib \<Rightarrow> Analyzer \<Rightarrow> string \<Rightarrow> bool \<Rightarrow> bool \<Rightarrow> analysis gen" where
  "analyze L A word capitalization allow_nosuggest =
     (if capitalization
      then (case variants L word of
              (captype, vs) \<Rightarrow> gen_for vs (\<lambda>v. analyze_internal L A allow_nosuggest v captype))
      else ([], Some TypeError))"

text \<open>An item of \<open>analyze\<close> counts for \<open>any\<close> when it is a form or a non-empty list.\<close>

definition item_truthy :: "analysis \<Rightarrow> bool" where
  "item_truthy x = (case x of AForm f \<Rightarrow> True | ACompound c \<Rightarrow> c \<noteq> [])"

definition is_found :: "lib \<Rightarrow> Analyzer \<Rightarrow> bool \<Rightarrow> bool \<Rightarrow> string \<Rightarrow> error + bool" where
  "is_found L A capitalization allow_nosuggest variant =
     (case analyze L A variant capitalization allow_nosuggest of
        (items, err) \<Rightarrow>
          if \<exists>x \<in> set items. item_truthy x then Inr True
          else (case err of Some e \<Rightarrow> Inl e | None \<Rightarrow> Inr False))"

function try_break :: "lib \<Rightarrow> Analyzer \<Rightarrow> string \<Rightarrow> nat \<Rightarrow> string list list" where
  "try_break L A txt depth =
     (if depth > 10 then []
      else [txt] #
           concat (map (\<lambda>pat.
             concat (map (\<lambda>(s, e). map (\<lambda>breaking. take s txt # breaking)
                                     (try_break L A (drop e txt) (depth + 1)))
                       (re_finditer L pat txt)))
             (breakpatterns A)))"
  by pat_completeness auto
termination
  by (relation "measure (\<lambda>(L, A, txt, depth). 11 - depth)") auto

declare try_break.simps [simp del]

text \<open>\<open>all(is_found(part) for part in parts if part)\<close>.\<close>

fun all_found :: "lib \<Rightarrow> Analyzer \<Rightarrow> bool \<Rightarrow> bool \<Rightarrow> string list \<Rightarrow> error + bool" where
  "all_found L A capitalization allow_nosuggest [] = Inr True"
| "all_found L A capitalization allow_nosuggest (part # parts) =
     (if part = [] then all_found L A capitalization allow_nosuggest parts
      else (case is_found L A capitalization allow_nosuggest part of
              Inl e \<Rightarrow> Inl e
            | Inr False \<Rightarrow> Inr False
            | Inr True \<Rightarrow> all_found L A capitalization allow_nosuggest parts))"

fun break_loop :: "lib \<Rightarrow> Analyzer \<Rightarrow> bool \<Rightarrow> bool \<Rightarrow> string list list \<Rightarrow> error + bool" where
  "break_loop L A capitalization allow_nosuggest [] = Inr False"
| "break_loop L A capitalization allow_nosuggest (parts # others) =
     (case all_found L A capitalization allow_nosuggest parts of
        Inl e \<Rightarrow> Inl e
      | Inr True \<Rightarrow> Inr True
      | Inr False \<Rightarrow> break_loop L A capitalization allow_nosuggest others)"

definition apply_iconv :: "aff \<Rightarrow> string \<Rightarrow> string" where
  "apply_iconv a word =
     foldl (\<lambda>w (i, out). str_replace w i out) word
       (sort_key (\<lambda>io. - int (length (snd io))) (ICONV a))"

definition forbidden_shortcut :: "lib \<Rightarrow> Analyzer \<Rightarrow> string \<Rightarrow> bool" where
  "forbidden_shortcut L A word =
     (truthy (FORBIDDENWORD (aff A)) \<and> homonyms L word False \<noteq> [] \<and>
      (\<forall>w \<in> set (homonyms L word False). flag_in (FORBIDDENWORD (aff A)) (w_flags w)))"

definition lookup :: "lib \<Rightarrow> Analyzer \<Rightarrow> string \<Rightarrow> bool \<Rightarrow> bool \<Rightarrow> error + bool" where
  "lookup L A word capitalization allow_nosuggest =
     (if forbidden_shortcut L A word then Inr False
      else (let word = apply_iconv (aff A) word
            in case is_found L A capitalization allow_nosuggest word of
                 Inl e \<Rightarrow> Inl e
               | Inr True \<Rightarrow> Inr True
               | Inr False \<Rightarrow>
                   break_loop L A capitalization allow_nosuggest (try_break L A word 0)))"


section \<open>Fixtures\<close>

text \<open>
  Concrete collaborators for the examples below. The dictionary keeps a list of words;
  the capitalization helper and \<open>str.upper\<close> work on ASCII letters; the \<open>re\<close> engine
  answers for the patterns that the fixtures compile, with a literal \<open>lit\<close> free of
  metacharacters: \<open>^lit\<close> and \<open>lit$\<close> for affixes without a condition, \<open>.(lit).\<close> for
  a break pattern. No fixture has a compound rule or a REP table.
\<close>

definition ascii_lower :: "char \<Rightarrow> char" where
  "ascii_lower c =
     (case map_of (zip ''ABCDEFGHIJKLMNOPQRSTUVWXYZ'' ''abcdefghijklmnopqrstuvwxyz'') c of
        Some d \<Rightarrow> d | None \<Rightarrow> c)"

definition ascii_upper :: "char \<Rightarrow> char" where
  "ascii_upper c =
     (case map_of (zip ''abcdefghijklmnopqrstuvwxyz'' ''ABCDEFGHIJKLMNOPQRSTUVWXYZ'') c of
        Some d \<Rightarrow> d | None \<Rightarrow> c)"

text \<open>Modelled from the spec: \<open>cap.guess\<close> and \<open>cap.variants\<close> are not part of the module;
  the spec gives \<open>guess(stem) \<rightarrow> Cap\<close> and \<open>variants(word) \<rightarrow> (Cap, [variant])\<close>, the word
  as it is first and then its lowercase and title forms.\<close>

definition fx_guess :: "string \<Rightarrow> Cap" where
  "fx_guess w =
     (if map ascii_lower w = w then NO
      else if map ascii_upper w = w then ALLCAP
      else if map ascii_lower (tl w) = tl w then INIT
      else if ascii_lower (hd w) \<noteq> hd w then HUHINIT
      else HUH)"

definition fx_variants :: "string \<Rightarrow> Cap \<times> string list" where
  "fx_variants w =
     (case fx_guess w of
        NO \<Rightarrow> (NO, [w])
      | INIT \<Rightarrow> (INIT, [w, map ascii_lower w])
      | ALLCAP \<Rightarrow> (ALLCAP, [w, map ascii_lower w,
                            map ascii_upper (take 1 w) @ map ascii_lower (drop 1 w)])
      | HUH \<Rightarrow> (HUH, [w])
      | HUHINIT \<Rightarrow> (HUHINIT, [w, map ascii_lower (take 1 w) @ drop 1 w]))"

text \<open>Modelled from the spec: \<open>dic.homonyms\<close> is not part of the module; a homonym is any
  entry whose stem equals the given string, case-exact or under a case fold.\<close>

definition fx_homonyms :: "dword list \<Rightarrow> string \<Rightarrow> bool \<Rightarrow> dword list" where
  "fx_homonyms words s ignorecase =
     filter (\<lambda>w. if ignorecase then map ascii_lower (w_stem w) = map ascii_lower s
                 else w_stem w = s) words"

definition fx_search :: "string \<Rightarrow> string \<Rightarrow> bool" where
  "fx_search pat txt =
     (if startswith pat ''^'' then startswith txt (drop 1 pat)
      else endswith pat ''$'' \<and> endswith txt (take (length pat - 1) pat))"

definition fx_sub :: "string \<Rightarrow> string \<Rightarrow> string \<Rightarrow> string" where
  "fx_sub pat repl txt =
     (if \<not> fx_search pat txt then txt
      else if startswith pat ''^'' then repl @ drop (length pat - 1) txt
      else take (length txt - (length pat - 1)) txt @ repl)"

text \<open>The matches of \<open>.(lit).\<close> from the left, none overlapping; \<open>i\<close> is the position of
  the first character of the text still to scan.\<close>

function scan_breaks :: "string \<Rightarrow> nat \<Rightarrow> string \<Rightarrow> (nat \<times> nat) list" where
  "scan_breaks lit i [] = []"
| "scan_breaks lit i (c # cs) =
     (if startswith cs lit \<and> length lit < length cs
      then (Suc i, Suc i + length lit) #
           scan_breaks lit (i + length lit + 2) (drop (Suc (length lit)) cs)
      else scan_breaks lit (Suc i) cs)"
  by pat_completeness auto
termination
  by (relation "measure (\<lambda>(lit, i, cs). length cs)") auto

definition fx_finditer :: "string \<Rightarrow> string \<Rightarrow> (nat \<times> nat) list" where
  "fx_finditer pat txt =
     (if startswith pat ''.('' \<and> endswith pat '').'' \<and> 4 \<le> length pat
      then scan_breaks (take (length pat - 4) (drop 2 pat)) 0 txt
      else [])"

definition fx_lib :: "dword list \<Rightarrow> lib" where
  "fx_lib words =
     \<lparr>homonyms = fx_homonyms words, guess = fx_guess, variants = fx_variants,
      replchars = (\<lambda>w reps. []), upper = map ascii_upper,
      re_search = fx_search, re_sub = fx_sub, re_fullmatch = (\<lambda>pat txt. pat = txt),
      re_finditer = fx_finditer, recursion_limit = 1000\<rparr>"

text \<open>An affix file with no directive, and a dictionary entry.\<close>

definition aff0 :: aff where
  "aff0 =
     \<lparr>SFX = [], PFX = [], FORBIDDENWORD = None, NOSUGGEST = None, KEEPCASE = None,
      NEEDAFFIX = None, ONLYINCOMPOUND = None, COMPOUNDFLAG = None, COMPOUNDBEGIN = None,
      COMPOUNDMIDDLE = None, COMPOUNDLAST = None, COMPOUNDPERMITFLAG = None,
      COMPOUNDFORBIDFLAG = None, COMPOUNDMIN = 3, COMPOUNDWORDSMAX = None,
      CHECKCOMPOUNDCASE = False, CHECKCOMPOUNDTRIPLE = False, CHECKCOMPOUNDREP = False,
      CHECKCOMPOUNDPATTERN = [], ICONV = [], REP = [], BREAK = [], COMPOUNDRULE = []\<rparr>"

definition entry :: "string \<Rightarrow> flag list \<Rightarrow> dword" where
  "entry s fs = \<lparr>w_stem = s, w_flags = set fs\<rparr>"

text \<open>\<open>FORBIDDENWORD !\<close> and \<open>ICONV a b\<close>; the dictionary is \<open>b/!\<close>.\<close>

definition forbid_lib :: lib where
  "forbid_lib = fx_lib [entry ''b'' [''!'']]"

definition forbid_an :: Analyzer where
  "forbid_an = projr (compile (aff0\<lparr>FORBIDDENWORD := Some ''!'', ICONV := [(''a'', ''b'')]\<rparr>))"

text \<open>\<open>SFX A Y 1\<close> / \<open>SFX A 0 s .\<close> and \<open>FORBIDDENWORD !\<close>; the dictionary is \<open>cats\<close>, \<open>cat/A!\<close>.\<close>

definition plural_lib :: lib where
  "plural_lib = fx_lib [entry ''cats'' [], entry ''cat'' [''A'', ''!'']]"

definition plural_s :: affix where
  "plural_s = \<lparr>flag = ''A'', strip = [], add = ''s'', condition = ''.'', crossproduct = True, flags = {}\<rparr>"

definition plural_an :: Analyzer where
  "plural_an = projr (compile (aff0\<lparr>SFX := [(''A'', [plural_s])], FORBIDDENWORD := Some ''!''\<rparr>))"

text \<open>No directive; the dictionary holds the stem \<open>a\<close> twice, as \<open>a\<close> and as \<open>a/X\<close>.\<close>

definition twice_lib :: lib where
  "twice_lib = fx_lib [entry ''a'' [], entry ''a'' [''X'']]"

definition plain_an :: Analyzer where
  "plain_an = projr (compile aff0)"

text \<open>\<open>ICONV a aa\<close> and \<open>ICONV c b\<close>; the dictionary is \<open>aa\<close>, \<open>b\<close>.\<close>

definition iconv_lib :: lib where
  "iconv_lib = fx_lib [entry ''aa'' [], entry ''b'' []]"

definition iconv_an :: Analyzer where
  "iconv_an = projr (compile (aff0\<lparr>ICONV := [(''a'', ''aa''), (''c'', ''b'')]\<rparr>))"

text \<open>\<open>BREAK -\<close>; the dictionary is \<open>foo\<close>, \<open>bar\<close>.\<close>

definition break_lib :: lib where
  "break_lib = fx_lib [entry ''foo'' [], entry ''bar'' []]"

definition break_an :: Analyzer where
  "break_an = projr (compile (aff0\<lparr>BREAK := [''-'']\<rparr>))"

text \<open>The parts of a splitting with a separator put back between each two of them.\<close>

fun interleave :: "string list \<Rightarrow> string list \<Rightarrow> string" where
  "interleave (p # ps) (s # ss) = p @ s @ interleave ps ss"
| "interleave ps ss = concat ps"

text \<open>A splitting with its separators, as the break patterns cut it: the first part is
  the text before group 1 of a match of a break pattern, the separator is the text of that
  group, and the other parts and separators split the text after the group in the same
  way; the last part is the text that is left.\<close>

fun group1_split :: "lib \<Rightarrow> Analyzer \<Rightarrow> string \<Rightarrow> string list \<Rightarrow> string list \<Rightarrow> bool" where
  "group1_split L A t [p] [] = (p = t)"
| "group1_split L A t (p # ps) (sp # sps) =
     (\<exists>pat \<in> set (breakpatterns A). \<exists>se \<in> set (re_finditer L pat t).
        p = take (fst se) t \<and> sp = drop (fst se) (take (snd se) t) \<and>
        group1_split L A (drop (snd se) t) ps sps)"
| "group1_split L A t ps sps = False"





text \<open>\<open>COMPOUNDFLAG Z\<close>, \<open>COMPOUNDMIN 3\<close>, \<open>COMPOUNDWORDSMAX 2\<close>; the dictionary is
  \<open>foo/Z\<close>, \<open>bar/Z\<close>, \<open>baz/Z\<close>.\<close>

definition max_lib :: lib where
  "max_lib = fx_lib [entry ''foo'' [''Z''], entry ''bar'' [''Z''], entry ''baz'' [''Z'']]"

definition max_an :: Analyzer where
  "max_an = projr (compile (aff0\<lparr>COMPOUNDFLAG := Some ''Z'', COMPOUNDWORDSMAX := Some 2\<rparr>))"

text \<open>\<open>PFX B Y 1\<close> / \<open>PFX B 0 un .\<close>, \<open>SFX A Y 1\<close> / \<open>SFX A 0 ed/P .\<close>, \<open>COMPOUNDFLAG Z\<close>,
  \<open>COMPOUNDPERMITFLAG P\<close>; the dictionary is \<open>lock/ABZ\<close>, \<open>foo/Z\<close>.\<close>

definition un_prefix :: affix where
  "un_prefix = \<lparr>flag = ''B'', strip = [], add = ''un'', condition = ''.'', crossproduct = True, flags = {}\<rparr>"

definition ed_suffix :: affix where
  "ed_suffix = \<lparr>flag = ''A'', strip = [], add = ''ed'', condition = ''.'', crossproduct = True, flags = {''P''}\<rparr>"

definition cross_lib :: lib where
  "cross_lib = fx_lib [entry ''lock'' [''A'', ''B'', ''Z''], entry ''foo'' [''Z'']]"

definition cross_an :: Analyzer where
  "cross_an = projr (compile (aff0\<lparr>PFX := [(''B'', [un_prefix])], SFX := [(''A'', [ed_suffix])],
                                    COMPOUNDFLAG := Some ''Z'', COMPOUNDPERMITFLAG := Some ''P''\<rparr>))"

text \<open>\<open>COMPOUNDFLAG Z\<close>, \<open>COMPOUNDMIN 2\<close>, \<open>CHECKCOMPOUNDTRIPLE\<close>; the dictionary is
  \<open>ab/Z\<close>, \<open>oo/Z\<close>, \<open>cd/Z\<close>.\<close>

definition triple_lib :: lib where
  "triple_lib = fx_lib [entry ''ab'' [''Z''], entry ''oo'' [''Z''], entry ''cd'' [''Z'']]"

definition triple_an :: Analyzer where
  "triple_an = projr (compile (aff0\<lparr>COMPOUNDFLAG := Some ''Z'', COMPOUNDMIN := 2,
                                     CHECKCOMPOUNDTRIPLE := True\<rparr>))"



section \<open>The forbidden shortcut of lookup\<close>

text \<open>
  C1. For every word \<open>w\<close>: if FORBIDDENWORD is defined (a flag is a string of one or more
  characters), \<open>dic.homonyms(w)\<close> is not empty and every homonym of \<open>w\<close> carries the
  FORBIDDENWORD flag, then \<open>lookup(w)\<close> returns \<open>False\<close>, whatever the values of
  \<open>capitalization\<close> and \<open>allow_nosuggest\<close>.
\<close>

theorem lookup_forbidden:
  assumes "FORBIDDENWORD (aff A) = Some f" and "f \<noteq> []"
    and "homonyms L w False \<noteq> []"
    and "\<forall>dw \<in> set (homonyms L w False). f \<in> w_flags dw"
  shows "lookup L A w capitalization allow_nosuggest = Inr False"
  using assms by (simp add: lookup_def forbidden_shortcut_def truthy_def flag_in_def)

lemma forbid_an_flag: "FORBIDDENWORD (aff forbid_an) = Some ''!''"
  by code_simp

lemma forbid_lib_b: "homonyms forbid_lib ''b'' False = [entry ''b'' [''!'']]"
  by code_simp

theorem lookup_forbidden_witness:
  "lookup forbid_lib forbid_an ''b'' True True = Inr False \<and>
   lookup forbid_lib forbid_an ''b'' False False = Inr False"
  using lookup_forbidden [of forbid_an "''!''" forbid_lib "''b''" True True]
    lookup_forbidden [of forbid_an "''!''" forbid_lib "''b''" False False]
  by (simp add: forbid_an_flag forbid_lib_b entry_def)

section \<open>Exceptions\<close>

text \<open>
  C2. The claim is that \<open>lookup\<close> and \<open>analyze\<close> never raise, for every word and every
  combination of the options. With \<open>capitalization=False\<close> the code calls
  \<open>analyze_internal\<close> without its \<open>captype\<close> argument: on the word \<open>a\<close>, which is not in
  the dictionary, \<open>analyze\<close> and \<open>lookup\<close> raise \<open>TypeError\<close>.
\<close>

theorem lookup_without_capitalization_raises:
  "analyze forbid_lib forbid_an ''a'' False True = ([], Some TypeError) \<and>
   lookup forbid_lib forbid_an ''a'' False True = Inl TypeError"
  by code_simp

lemma analyze_without_capitalization:
  "analyze L A word False allow_nosuggest = ([], Some TypeError)"
  by (simp add: analyze_def)

lemma lookup_without_capitalization:
  "\<not> forbidden_shortcut L A word \<Longrightarrow> lookup L A word False allow_nosuggest = Inl TypeError"
  by (simp add: lookup_def is_found_def analyze_def)

section \<open>The loop of word_forms\<close>

lemma word_forms_loop_stops:
  "forbidden_stem L A compoundpos form \<Longrightarrow>
   word_forms_loop L A captype compoundpos allow_nosuggest (before @ form # after) =
   word_forms_loop L A captype compoundpos allow_nosuggest before"
  by (induction before) simp_all

text \<open>
  C7. In \<open>word_forms\<close>, when a form produced by \<open>try_affix_forms\<close>, with \<open>compoundpos\<close>
  set or with an affix (not base), has a stem of which some homonym carries FORBIDDENWORD,
  the generator stops there: what \<open>word_forms\<close> yields is what its loop yields on the forms
  before that one, and nothing for that form or for any form after it.
\<close>

theorem word_forms_forbidden_abort:
  assumes "try_affix_forms L A word compoundpos = before @ form # after"
    and "compoundpos \<noteq> None \<or> \<not> is_base form"
    and "\<exists>dw \<in> set (homonyms L (stem form) False). flag_in (FORBIDDENWORD (aff A)) (w_flags dw)"
  shows "word_forms L A word captype compoundpos allow_nosuggest =
         word_forms_loop L A captype compoundpos allow_nosuggest before"
proof -
  have "forbidden_stem L A compoundpos form"
    using assms(2,3) by (simp add: forbidden_stem_def)
  then show ?thesis
    by (simp add: word_forms_def assms(1) word_forms_loop_stops)
qed

lemma plural_cats_forms:
  "try_affix_forms plural_lib plural_an ''cats'' None =
   [mk_form ''cats'' ''cats''] @ (mk_form ''cats'' ''cat'')\<lparr>suffix := Some plural_s\<rparr> # []"
  by code_simp

lemma plural_cat_forbidden:
  "\<exists>dw \<in> set (homonyms plural_lib ''cat'' False). flag_in (FORBIDDENWORD (aff plural_an)) (w_flags dw)"
  by code_simp

lemma plural_cats_before:
  "word_forms_loop plural_lib plural_an NO None True [mk_form ''cats'' ''cats''] = [mk_form ''cats'' ''cats'']"
  by code_simp

theorem word_forms_forbidden_abort_witness:
  "word_forms plural_lib plural_an ''cats'' NO None True = [mk_form ''cats'' ''cats'']"
proof -
  let ?form = "(mk_form ''cats'' ''cat'')\<lparr>suffix := Some plural_s\<rparr>"
  have nb: "None \<noteq> (None :: CompoundPos option) \<or> \<not> is_base ?form"
    by (simp add: is_base_def mk_form_def)
  have st: "stem ?form = ''cat''"
    by (simp add: mk_form_def)
  have fb: "\<exists>dw \<in> set (homonyms plural_lib (stem ?form) False).
              flag_in (FORBIDDENWORD (aff plural_an)) (w_flags dw)"
    unfolding st by (rule plural_cat_forbidden)
  have "word_forms plural_lib plural_an ''cats'' NO None True =
        word_forms_loop plural_lib plural_an NO None True [mk_form ''cats'' ''cats'']"
    by (rule word_forms_forbidden_abort [OF plural_cats_forms nb fb])
  then show ?thesis
    by (simp only: plural_cats_before)
qed

text \<open>
  C8, as the code has it. In \<open>word_forms\<close>, a form that passes the forbidden check is
  yielded once for every case-exact homonym of its stem that satisfies the
  flag-compatibility check; only when no case-exact homonym is compatible is the
  case-insensitive list consulted, and then the form is yielded once for every homonym of
  that list that is eligible and compatible.
\<close>

theorem word_forms_once_per_homonym:
  assumes "\<not> forbidden_stem L A compoundpos form"
  shows "word_forms_loop L A captype compoundpos allow_nosuggest (form # rest) =
         replicate
           (let n = length (filter (\<lambda>w. have_compatible_flags L A w form compoundpos captype allow_nosuggest)
                              (homonyms L (stem form) False))
            in if 0 < n then n
               else length (filter (\<lambda>w. \<not> (captype \<noteq> ALLCAP \<and> guess L (w_stem w) \<noteq> NO) \<and>
                                         have_compatible_flags L A w form compoundpos captype allow_nosuggest)
                              (homonyms L (stem form) True)))
           form
         @ word_forms_loop L A captype compoundpos allow_nosuggest rest"
  using assms by (simp add: forms_of_def Let_def map_replicate_const)

theorem word_forms_once_per_homonym_witness:
  "word_forms_loop twice_lib plain_an NO None True [mk_form ''a'' ''a''] =
   replicate 2 (mk_form ''a'' ''a'')"
proof -
  have h: "\<not> forbidden_stem twice_lib plain_an None (mk_form ''a'' ''a'')"
    by code_simp
  have n: "length (filter (\<lambda>w. have_compatible_flags twice_lib plain_an w (mk_form ''a'' ''a'') None NO True)
                     (homonyms twice_lib (stem (mk_form ''a'' ''a'')) False)) = 2"
    by code_simp
  show ?thesis
    using word_forms_once_per_homonym [OF h, of NO True "[]"] by (simp add: n)
qed

text \<open>
  C8, as the claim has it: the form would be yielded exactly once. With the two homonyms
  \<open>a\<close> and \<open>a/X\<close>, both compatible, \<open>word_forms('a')\<close> yields the form twice.
\<close>

theorem word_forms_once_counterexample:
  "word_forms twice_lib plain_an ''a'' NO None True = [mk_form ''a'' ''a'', mk_form ''a'' ''a'']"
  by code_simp

section \<open>Input conversion\<close>

text \<open>
  C3, as the code has it. \<open>lookup(w)\<close> equals \<open>lookup(apply_iconv(w))\<close> whenever the
  ICONV replacements leave \<open>apply_iconv(w)\<close> unchanged and the forbidden shortcut gives the
  same answer for \<open>w\<close> and for \<open>apply_iconv(w)\<close>; \<open>apply_iconv\<close> performs the ICONV
  replacements sorted by output length, longest first.
\<close>

theorem lookup_iconv:
  assumes "apply_iconv (aff A) (apply_iconv (aff A) w) = apply_iconv (aff A) w"
    and "forbidden_shortcut L A (apply_iconv (aff A) w) = forbidden_shortcut L A w"
  shows "lookup L A (apply_iconv (aff A) w) capitalization allow_nosuggest =
         lookup L A w capitalization allow_nosuggest"
  using assms by (simp add: lookup_def)

theorem lookup_iconv_witness:
  "apply_iconv (aff iconv_an) ''c'' = ''b'' \<and>
   lookup iconv_lib iconv_an (apply_iconv (aff iconv_an) ''c'') True True =
   lookup iconv_lib iconv_an ''c'' True True"
proof -
  have c: "apply_iconv (aff iconv_an) ''c'' = ''b''"
    by code_simp
  have i: "apply_iconv (aff iconv_an) (apply_iconv (aff iconv_an) ''c'') = apply_iconv (aff iconv_an) ''c''"
    by code_simp
  have f: "forbidden_shortcut iconv_lib iconv_an (apply_iconv (aff iconv_an) ''c'') =
           forbidden_shortcut iconv_lib iconv_an ''c''"
    by code_simp
  show ?thesis
    using lookup_iconv [OF i f, of True True] c by simp
qed

text \<open>
  C3, as the claim has it: \<open>lookup(w) = lookup(apply_iconv(w))\<close> for every word. With
  \<open>ICONV a aa\<close> and the dictionary word \<open>aa\<close>, \<open>lookup('a')\<close> looks for \<open>aa\<close> and
  \<open>lookup('aa')\<close> for \<open>aaaa\<close>. With \<open>ICONV a b\<close> and the only entry \<open>b/!\<close> forbidden,
  \<open>lookup('a')\<close> finds \<open>b\<close> and \<open>lookup('b')\<close> is stopped by the forbidden shortcut.
\<close>

theorem lookup_iconv_counterexample:
  "lookup iconv_lib iconv_an ''a'' True True = Inr True \<and>
   lookup iconv_lib iconv_an (apply_iconv (aff iconv_an) ''a'') True True = Inr False \<and>
   lookup forbid_lib forbid_an ''a'' True True = Inr True \<and>
   lookup forbid_lib forbid_an (apply_iconv (aff forbid_an) ''a'') True True = Inr False"
  by code_simp

section \<open>The break-pattern search\<close>

lemma all_found_True:
  "all_found L A c n parts = Inr True \<Longrightarrow> p \<in> set parts \<Longrightarrow> p \<noteq> [] \<Longrightarrow> is_found L A c n p = Inr True"
  by (induction parts) (auto split: if_splits sum.splits bool.splits)

lemma break_loop_True:
  "break_loop L A c n splits = Inr True \<Longrightarrow> \<exists>parts \<in> set splits. all_found L A c n parts = Inr True"
  by (induction splits) (auto split: if_splits sum.splits bool.splits)

lemma interleave_single: "interleave [p] [] = p"
  by simp

lemma rejoin_span:
  assumes "s \<le> e"
  shows "take s t @ drop s (take e t) @ drop e t = t"
proof -
  have "take s t = take s (take e t)"
    using assms by (simp add: min_def)
  then have "take s t @ drop s (take e t) = take e t"
    by (metis append_take_drop_id)
  then show ?thesis
    by (metis append.assoc append_take_drop_id)
qed

lemma try_break_group1:
  "\<forall>pat t. \<forall>se \<in> set (re_finditer L pat t). fst se \<le> snd se \<Longrightarrow>
   parts \<in> set (try_break L A t depth) \<Longrightarrow>
   \<exists>seps. group1_split L A t parts seps \<and> length parts = Suc (length seps) \<and>
          interleave parts seps = t"
proof (induction L A t depth arbitrary: parts rule: try_break.induct)
  case (1 L A t depth)
  note spans = "1.prems"(1) and mem = "1.prems"(2)
  from mem have d: "\<not> 10 < depth"
    by (subst (asm) try_break.simps) (simp split: if_splits)
  from mem d consider (whole) "parts = [t]"
    | (split) pat s e breaking where "pat \<in> set (breakpatterns A)"
        "(s, e) \<in> set (re_finditer L pat t)"
        "breaking \<in> set (try_break L A (drop e t) (depth + 1))"
        "parts = take s t # breaking"
    by (subst (asm) try_break.simps) (auto split: if_splits)
  then show ?case
  proof cases
    case whole
    then have "group1_split L A t parts [] \<and> length parts = Suc (length ([] :: string list)) \<and>
               interleave parts [] = t"
      by simp
    then show ?thesis by blast
  next
    case split
    from "1.IH" [OF d split(1) split(2) refl spans split(3)]
    obtain seps where g: "group1_split L A (drop e t) breaking seps"
      and l: "length breaking = Suc (length seps)"
      and i: "interleave breaking seps = drop e t"
      by blast
    from spans split(2) have se: "s \<le> e"
      by force
    from g obtain b bs where b: "breaking = b # bs"
      by (cases breaking) auto
    let ?sp = "drop s (take e t)"
    have "interleave parts (?sp # seps) = take s t @ ?sp @ drop e t"
      using split(4) b i by simp
    then have "interleave parts (?sp # seps) = t"
      using rejoin_span [OF se] by simp
    moreover have "group1_split L A t parts (?sp # seps)"
      unfolding split(4) b group1_split.simps(2)
      using split(1) split(2) g [unfolded b] by force
    moreover have "length parts = Suc (length (?sp # seps))"
      using split(4) l by simp
    ultimately show ?thesis by blast
  qed
qed

lemma scan_breaks_spans: "se \<in> set (scan_breaks lit i cs) \<Longrightarrow> fst se \<le> snd se"
  by (induction lit i cs rule: scan_breaks.induct) (auto split: if_splits)

lemma fx_finditer_spans: "\<forall>pat t. \<forall>se \<in> set (re_finditer (fx_lib ws) pat t). fst se \<le> snd se"
  by (auto simp: fx_lib_def fx_finditer_def dest: scan_breaks_spans)

text \<open>
  C4, as the code has it. When \<open>lookup\<close> accepts a word through the break-pattern search,
  some splitting of \<open>try_break\<close> has every non-empty part accepted by \<open>is_found\<close>, and it
  comes with separators, each of them the text that group 1 of a break pattern matched
  where the split was made (the text that the split drops), such that the parts with the
  separators put back between them, in order, give the input of the search, the word after
  ICONV, verbatim. The \<open>re\<close> engine is taken to report spans that start no later than they
  end.
\<close>

theorem break_split_parts:
  assumes "\<forall>pat t. \<forall>se \<in> set (re_finditer L pat t). fst se \<le> snd se"
    and "lookup L A w capitalization allow_nosuggest = Inr True"
    and "is_found L A capitalization allow_nosuggest (apply_iconv (aff A) w) \<noteq> Inr True"
  shows "\<exists>parts \<in> set (try_break L A (apply_iconv (aff A) w) 0).
           (\<forall>p \<in> set parts. p \<noteq> [] \<longrightarrow> is_found L A capitalization allow_nosuggest p = Inr True) \<and>
           (\<exists>seps. group1_split L A (apply_iconv (aff A) w) parts seps \<and>
                   length parts = Suc (length seps) \<and>
                   interleave parts seps = apply_iconv (aff A) w)"
proof -
  from assms(2,3)
  have "break_loop L A capitalization allow_nosuggest (try_break L A (apply_iconv (aff A) w) 0) = Inr True"
    by (auto simp: lookup_def Let_def split: if_splits sum.splits bool.splits)
  then obtain parts where p: "parts \<in> set (try_break L A (apply_iconv (aff A) w) 0)"
    and f: "all_found L A capitalization allow_nosuggest parts = Inr True"
    using break_loop_True by blast
  from try_break_group1 [OF assms(1) p] all_found_True [OF f] p show ?thesis
    by blast
qed

theorem break_split_parts_witness:
  "\<exists>parts \<in> set (try_break break_lib break_an (apply_iconv (aff break_an) ''foo-bar'') 0).
     (\<forall>p \<in> set parts. p \<noteq> [] \<longrightarrow> is_found break_lib break_an True True p = Inr True) \<and>
     (\<exists>seps. group1_split break_lib break_an (apply_iconv (aff break_an) ''foo-bar'') parts seps \<and>
             length parts = Suc (length seps) \<and>
             interleave parts seps = apply_iconv (aff break_an) ''foo-bar'')"
proof -
  have s: "\<forall>pat t. \<forall>se \<in> set (re_finditer break_lib pat t). fst se \<le> snd se"
    unfolding break_lib_def by (rule fx_finditer_spans)
  have l: "lookup break_lib break_an ''foo-bar'' True True = Inr True"
    by code_simp
  have n: "is_found break_lib break_an True True (apply_iconv (aff break_an) ''foo-bar'') \<noteq> Inr True"
    by code_simp
  show ?thesis
    by (rule break_split_parts [OF s l n])
qed

text \<open>
  C4, as the claim has it: the non-empty parts of the accepted splitting, concatenated,
  would equal the input. With \<open>BREAK -\<close> the word \<open>foo-bar\<close> is not found as a whole and
  is accepted through the splitting \<open>foo\<close>, \<open>bar\<close>, the only other one; the hyphen is in
  no part.
\<close>

theorem break_split_counterexample:
  "lookup break_lib break_an ''foo-bar'' True True = Inr True \<and>
   is_found break_lib break_an True True ''foo-bar'' = Inr False \<and>
   try_break break_lib break_an ''foo-bar'' 0 = [[''foo-bar''], [''foo'', ''bar'']] \<and>
   all_found break_lib break_an True True [''foo'', ''bar''] = Inr True \<and>
   concat (filter (\<lambda>p. p \<noteq> []) [''foo'', ''bar'']) \<noteq> ''foo-bar''"
  by code_simp

section \<open>The compound search\<close>

text \<open>What a compound of either search is made of: the items of the generators, one call
  at a time.\<close>

lemma gen_chain_items: "set (fst (gen_chain g h)) \<subseteq> set (fst g) \<union> set (fst h)"
  by (auto simp: gen_chain_def split: option.splits)

lemma gen_for_items: "c \<in> set (fst (gen_for xs body)) \<Longrightarrow> \<exists>x \<in> set xs. c \<in> set (fst (body x))"
proof (induction xs)
  case Nil
  then show ?case by simp
next
  case (Cons x xs)
  then show ?case
    using gen_chain_items [of "body x" "gen_for xs body"] by auto
qed

lemma gen_map_items: "fst (gen_map f g) = map f (fst g)"
  by (simp add: gen_map_def)

lemma gen_of_list_items: "fst (gen_of_list xs) = xs"
  by (simp add: gen_of_list_def)

lemma by_flags_cases:
  assumes "c \<in> set (fst (compound_parts_by_flags L A (Suc n) word_rest prev_parts ns))"
  shows "(prev_parts \<noteq> [] \<and> (\<exists>form \<in> set (word_forms L A word_rest NO (Some END) ns). c = [form])) \<or>
         (\<not> search_stops (aff A) word_rest prev_parts \<and>
          (\<exists>pos form rest. COMPOUNDMIN (aff A) \<le> pos \<and> pos \<le> length word_rest - COMPOUNDMIN (aff A) \<and>
             form \<in> set (word_forms L A (take pos word_rest) NO
                           (Some (if prev_parts = [] then BEGIN else MIDDLE)) ns) \<and>
             rest \<in> set (fst (compound_parts_by_flags L A n (drop pos word_rest) (prev_parts @ [form]) ns)) \<and>
             c = form # rest))"
proof -
  let ?g = "if prev_parts \<noteq> []
        then gen_of_list (map (\<lambda>form. [form]) (word_forms L A word_rest NO (Some END) ns))
        else gen_of_list []"
  let ?h = "if search_stops (aff A) word_rest prev_parts then gen_of_list []
        else gen_for [COMPOUNDMIN (aff A) ..< Suc (length word_rest - COMPOUNDMIN (aff A))]
               (\<lambda>pos. gen_for (word_forms L A (take pos word_rest) NO
                                 (Some (if prev_parts = [] then BEGIN else MIDDLE)) ns)
                  (\<lambda>form. gen_map (\<lambda>rest. form # rest)
                     (compound_parts_by_flags L A n (drop pos word_rest) (prev_parts @ [form]) ns)))"
  from assms have "c \<in> set (fst (gen_chain ?g ?h))"
    by (simp only: compound_parts_by_flags.simps)
  then have "c \<in> set (fst ?g) \<or> c \<in> set (fst ?h)"
    using gen_chain_items [of ?g ?h] by blast
  then show ?thesis
  proof
    assume "c \<in> set (fst ?g)"
    then show ?thesis
      by (auto simp: gen_of_list_items split: if_splits)
  next
    assume h: "c \<in> set (fst ?h)"
    then have ns: "\<not> search_stops (aff A) word_rest prev_parts"
      by (auto simp: gen_of_list_items split: if_splits)
    let ?body = "\<lambda>pos. gen_for (word_forms L A (take pos word_rest) NO
                                 (Some (if prev_parts = [] then BEGIN else MIDDLE)) ns)
                  (\<lambda>form. gen_map (\<lambda>rest. form # rest)
                     (compound_parts_by_flags L A n (drop pos word_rest) (prev_parts @ [form]) ns))"
    from h ns
    have "c \<in> set (fst (gen_for [COMPOUNDMIN (aff A) ..< Suc (length word_rest - COMPOUNDMIN (aff A))] ?body))"
      by (simp only: if_False)
    from gen_for_items [OF this]
    obtain pos where p: "pos \<in> set [COMPOUNDMIN (aff A) ..< Suc (length word_rest - COMPOUNDMIN (aff A))]"
      and b: "c \<in> set (fst (?body pos))"
      by blast
    from gen_for_items [OF b]
    obtain form where f: "form \<in> set (word_forms L A (take pos word_rest) NO
                                 (Some (if prev_parts = [] then BEGIN else MIDDLE)) ns)"
      and m: "c \<in> set (fst (gen_map (\<lambda>rest. form # rest)
                     (compound_parts_by_flags L A n (drop pos word_rest) (prev_parts @ [form]) ns)))"
      by blast
    from p have "COMPOUNDMIN (aff A) \<le> pos \<and> pos \<le> length word_rest - COMPOUNDMIN (aff A)"
      by (simp del: upt_Suc)
    with ns f m show ?thesis
      by (auto simp: gen_map_items)
  qed
qed

lemma by_flags_nonempty:
  "c \<in> set (fst (compound_parts_by_flags L A n word_rest prev_parts ns)) \<Longrightarrow> c \<noteq> []"
  by (cases n) (auto dest: by_flags_cases)

lemma by_flags_two_parts:
  "2 \<le> length c" if "c \<in> set (fst (compound_parts_by_flags L A n word_rest [] ns))"
proof (cases n)
  case 0
  with that show ?thesis by simp
next
  case (Suc m)
  with that by_flags_cases [of c L A m word_rest "[]" ns]
  obtain form rest pos where c: "c = form # rest"
    and r: "rest \<in> set (fst (compound_parts_by_flags L A m (drop pos word_rest) ([] @ [form]) ns))"
    by auto
  from by_flags_nonempty [OF r] c show ?thesis
    by (cases rest) auto
qed

lemma by_flags_bound:
  "COMPOUNDWORDSMAX (aff A) = Some k \<Longrightarrow> 0 < k \<Longrightarrow>
   c \<in> set (fst (compound_parts_by_flags L A n word_rest prev_parts ns)) \<Longrightarrow>
   length prev_parts + length c \<le> max (Suc k) (Suc (length prev_parts))"
proof (induction n arbitrary: word_rest prev_parts c)
  case 0
  then show ?case by simp
next
  case (Suc n)
  from by_flags_cases [OF Suc.prems(3)] show ?case
  proof
    assume "prev_parts \<noteq> [] \<and> (\<exists>form \<in> set (word_forms L A word_rest NO (Some END) ns). c = [form])"
    then show ?thesis by auto
  next
    assume "\<not> search_stops (aff A) word_rest prev_parts \<and>
          (\<exists>pos form rest. COMPOUNDMIN (aff A) \<le> pos \<and> pos \<le> length word_rest - COMPOUNDMIN (aff A) \<and>
             form \<in> set (word_forms L A (take pos word_rest) NO
                           (Some (if prev_parts = [] then BEGIN else MIDDLE)) ns) \<and>
             rest \<in> set (fst (compound_parts_by_flags L A n (drop pos word_rest) (prev_parts @ [form]) ns)) \<and>
             c = form # rest)"
    then obtain pos form rest where s: "\<not> search_stops (aff A) word_rest prev_parts"
      and r: "rest \<in> set (fst (compound_parts_by_flags L A n (drop pos word_rest) (prev_parts @ [form]) ns))"
      and c: "c = form # rest"
      by blast
    from s Suc.prems(1,2) have lt: "length prev_parts < k"
      by (simp add: search_stops_def truthy_num_def)
    from Suc.IH [OF Suc.prems(1,2) r] have "Suc (length prev_parts) + length rest \<le> max (Suc k) (Suc (Suc (length prev_parts)))"
      by simp
    with lt c show ?thesis by simp
  qed
qed


lemma by_rules_cases:
  assumes "c \<in> set (fst (compound_parts_by_rules L A (Suc n) word_rest prev_parts rules))"
  shows "(prev_parts \<noteq> [] \<and> c = [mk_form word_rest word_rest]) \<or>
         (\<not> search_stops (aff A) word_rest prev_parts \<and>
          (\<exists>pos homonym rest. COMPOUNDMIN (aff A) \<le> pos \<and> pos \<le> length word_rest - COMPOUNDMIN (aff A) \<and>
             rest \<in> set (fst (compound_parts_by_rules L A n (drop pos word_rest) (prev_parts @ [homonym]) rules)) \<and>
             c = mk_form (take pos word_rest) (take pos word_rest) # rest))"
proof -
  let ?g = "if prev_parts \<noteq> []
        then gen_of_list (map (\<lambda>homonym. [mk_form word_rest word_rest])
               (filter (\<lambda>homonym. \<exists>r \<in> set rules.
                          CompoundRule_fullmatch L r (map w_flags (prev_parts @ [homonym])))
                  (homonyms L word_rest False)))
        else gen_of_list []"
  let ?body = "\<lambda>pos. gen_for (homonyms L (take pos word_rest) False)
                  (\<lambda>homonym.
                     if filter (\<lambda>r. CompoundRule_partial_match L r (map w_flags (prev_parts @ [homonym])))
                          rules \<noteq> []
                     then gen_map (\<lambda>rest. mk_form (take pos word_rest) (take pos word_rest) # rest)
                            (compound_parts_by_rules L A n (drop pos word_rest)
                               (prev_parts @ [homonym]) rules)
                     else gen_of_list [])"
  let ?h = "if search_stops (aff A) word_rest prev_parts then gen_of_list []
        else gen_for [COMPOUNDMIN (aff A) ..< Suc (length word_rest - COMPOUNDMIN (aff A))] ?body"
  from assms have "c \<in> set (fst (gen_chain ?g ?h))"
    by (simp only: compound_parts_by_rules.simps)
  then have "c \<in> set (fst ?g) \<or> c \<in> set (fst ?h)"
    using gen_chain_items [of ?g ?h] by blast
  then show ?thesis
  proof
    assume "c \<in> set (fst ?g)"
    then show ?thesis
      by (auto simp: gen_of_list_items split: if_splits)
  next
    assume h: "c \<in> set (fst ?h)"
    then have ns: "\<not> search_stops (aff A) word_rest prev_parts"
      by (auto simp: gen_of_list_items split: if_splits)
    from h ns
    have "c \<in> set (fst (gen_for [COMPOUNDMIN (aff A) ..< Suc (length word_rest - COMPOUNDMIN (aff A))] ?body))"
      by (simp only: if_False)
    from gen_for_items [OF this]
    obtain pos where p: "pos \<in> set [COMPOUNDMIN (aff A) ..< Suc (length word_rest - COMPOUNDMIN (aff A))]"
      and b: "c \<in> set (fst (?body pos))"
      by blast
    from gen_for_items [OF b]
    obtain homonym where
      m: "c \<in> set (fst (if filter (\<lambda>r. CompoundRule_partial_match L r (map w_flags (prev_parts @ [homonym])))
                          rules \<noteq> []
                     then gen_map (\<lambda>rest. mk_form (take pos word_rest) (take pos word_rest) # rest)
                            (compound_parts_by_rules L A n (drop pos word_rest)
                               (prev_parts @ [homonym]) rules)
                     else gen_of_list []))"
      by blast
    from p have "COMPOUNDMIN (aff A) \<le> pos \<and> pos \<le> length word_rest - COMPOUNDMIN (aff A)"
      by (simp del: upt_Suc)
    with ns m show ?thesis
      by (auto simp: gen_map_items gen_of_list_items split: if_splits)
  qed
qed

lemma by_rules_nonempty:
  "c \<in> set (fst (compound_parts_by_rules L A n word_rest prev_parts rules)) \<Longrightarrow> c \<noteq> []"
  by (cases n) (auto dest: by_rules_cases)

lemma by_rules_two_parts:
  "2 \<le> length c" if "c \<in> set (fst (compound_parts_by_rules L A n word_rest [] rules))"
proof (cases n)
  case 0
  with that show ?thesis by simp
next
  case (Suc m)
  with that by_rules_cases [of c L A m word_rest "[]" rules]
  obtain form rest pos homonym where c: "c = form # rest"
    and r: "rest \<in> set (fst (compound_parts_by_rules L A m (drop pos word_rest) ([] @ [homonym]) rules))"
    by auto
  from by_rules_nonempty [OF r] c show ?thesis
    by (cases rest) auto
qed

lemma by_rules_texts:
  "c \<in> set (fst (compound_parts_by_rules L A n word_rest prev_parts rules)) \<Longrightarrow>
   concat (map form_text c) = word_rest"
proof (induction n arbitrary: word_rest prev_parts c)
  case 0
  then show ?case by simp
next
  case (Suc n)
  from by_rules_cases [OF Suc.prems] show ?case
  proof
    assume "prev_parts \<noteq> [] \<and> c = [mk_form word_rest word_rest]"
    then show ?thesis by (simp add: mk_form_def)
  next
    assume "\<not> search_stops (aff A) word_rest prev_parts \<and>
          (\<exists>pos homonym rest. COMPOUNDMIN (aff A) \<le> pos \<and> pos \<le> length word_rest - COMPOUNDMIN (aff A) \<and>
             rest \<in> set (fst (compound_parts_by_rules L A n (drop pos word_rest) (prev_parts @ [homonym]) rules)) \<and>
             c = mk_form (take pos word_rest) (take pos word_rest) # rest)"
    then obtain pos homonym rest where
      r: "rest \<in> set (fst (compound_parts_by_rules L A n (drop pos word_rest) (prev_parts @ [homonym]) rules))"
      and c: "c = mk_form (take pos word_rest) (take pos word_rest) # rest"
      by blast
    from Suc.IH [OF r] c show ?thesis
      by (simp add: mk_form_def)
  qed
qed

lemma by_rules_bound:
  "COMPOUNDWORDSMAX (aff A) = Some k \<Longrightarrow> 0 < k \<Longrightarrow>
   c \<in> set (fst (compound_parts_by_rules L A n word_rest prev_parts rules)) \<Longrightarrow>
   length prev_parts + length c \<le> max (Suc k) (Suc (length prev_parts))"
proof (induction n arbitrary: word_rest prev_parts c)
  case 0
  then show ?case by simp
next
  case (Suc n)
  from by_rules_cases [OF Suc.prems(3)] show ?case
  proof
    assume "prev_parts \<noteq> [] \<and> c = [mk_form word_rest word_rest]"
    then show ?thesis by auto
  next
    assume "\<not> search_stops (aff A) word_rest prev_parts \<and>
          (\<exists>pos homonym rest. COMPOUNDMIN (aff A) \<le> pos \<and> pos \<le> length word_rest - COMPOUNDMIN (aff A) \<and>
             rest \<in> set (fst (compound_parts_by_rules L A n (drop pos word_rest) (prev_parts @ [homonym]) rules)) \<and>
             c = mk_form (take pos word_rest) (take pos word_rest) # rest)"
    then obtain pos homonym rest where s: "\<not> search_stops (aff A) word_rest prev_parts"
      and r: "rest \<in> set (fst (compound_parts_by_rules L A n (drop pos word_rest) (prev_parts @ [homonym]) rules))"
      and c: "c = mk_form (take pos word_rest) (take pos word_rest) # rest"
      by blast
    from s Suc.prems(1,2) have lt: "length prev_parts < k"
      by (simp add: search_stops_def truthy_num_def)
    from Suc.IH [OF Suc.prems(1,2) r]
    have "Suc (length prev_parts) + length rest \<le> max (Suc k) (Suc (Suc (length prev_parts)))"
      by simp
    with lt c show ?thesis by simp
  qed
qed

lemma by_flags_texts:
  assumes kept: "\<forall>w compoundpos. \<forall>f \<in> set (word_forms L A w NO compoundpos ns). form_text f = w"
  shows "c \<in> set (fst (compound_parts_by_flags L A n word_rest prev_parts ns)) \<Longrightarrow>
         concat (map form_text c) = word_rest"
proof (induction n arbitrary: word_rest prev_parts c)
  case 0
  then show ?case by simp
next
  case (Suc n)
  from by_flags_cases [OF Suc.prems] show ?case
  proof
    assume "prev_parts \<noteq> [] \<and> (\<exists>form \<in> set (word_forms L A word_rest NO (Some END) ns). c = [form])"
    with kept show ?thesis by auto
  next
    assume "\<not> search_stops (aff A) word_rest prev_parts \<and>
          (\<exists>pos form rest. COMPOUNDMIN (aff A) \<le> pos \<and> pos \<le> length word_rest - COMPOUNDMIN (aff A) \<and>
             form \<in> set (word_forms L A (take pos word_rest) NO
                           (Some (if prev_parts = [] then BEGIN else MIDDLE)) ns) \<and>
             rest \<in> set (fst (compound_parts_by_flags L A n (drop pos word_rest) (prev_parts @ [form]) ns)) \<and>
             c = form # rest)"
    then obtain pos form rest where
      f: "form \<in> set (word_forms L A (take pos word_rest) NO
                           (Some (if prev_parts = [] then BEGIN else MIDDLE)) ns)"
      and r: "rest \<in> set (fst (compound_parts_by_flags L A n (drop pos word_rest) (prev_parts @ [form]) ns))"
      and c: "c = form # rest"
      by blast
    from kept f have "form_text form = take pos word_rest"
      by blast
    with Suc.IH [OF r] c show ?thesis
      by simp
  qed
qed

lemma word_forms_loop_subset:
  "set (word_forms_loop L A captype compoundpos ns fs) \<subseteq> set fs"
  by (induction fs) (auto simp: forms_of_def Let_def split: if_splits)

lemma desuffix_text:
  "f \<in> set (desuffix L A w rq fb nested cross) \<Longrightarrow> form_text f = w"
  by (subst (asm) desuffix.simps) (auto simp: mk_form_def Let_def split: if_splits)

lemma deprefix_text:
  "f \<in> set (deprefix L A w rq fb nested) \<Longrightarrow> form_text f = w"
  by (subst (asm) deprefix.simps) (auto simp: mk_form_def Let_def split: if_splits)

text \<open>
  Where the searches keep their promises: a compound has at least two parts; with
  COMPOUNDWORDSMAX \<open>k\<close> it has at most \<open>k + 1\<close> parts; and its texts, concatenated,
  are the input when no prefix of the affix index has the cross-product mark.
\<close>

lemma trie_lookup_leaf:
  assumes "e \<in> set (trie_lookup t key)"
  shows "\<exists>k leaf. t k = Some leaf \<and> e \<in> set leaf"
proof -
  from assms obtain n where "e \<in> set (case t (take n key) of None \<Rightarrow> [] | Some vs \<Rightarrow> vs)"
    unfolding trie_lookup_def by (auto simp del: upt_Suc)
  then show ?thesis
    by (cases "t (take n key)") auto
qed

lemma deprefix_nested_prefix:
  assumes "f \<in> set (deprefix L A w rq fb True)"
  shows "\<exists>e \<in> set (trie_lookup (prefixes A) w). prefix f = Some (fst e)"
  using assms by (subst (asm) deprefix.simps) (force simp: mk_form_def Let_def)

lemma deprefix_prefix:
  assumes "f \<in> set (deprefix L A w rq fb False)"
  shows "\<exists>w2. \<exists>e \<in> set (trie_lookup (prefixes A) w2). prefix f = Some (fst e)"
proof -
  from assms obtain pref regexp where e: "(pref, regexp) \<in> set (trie_lookup (prefixes A) w)"
    and f: "f = (mk_form w (re_sub L regexp (strip pref) w))\<lparr>prefix := Some pref\<rparr> \<or>
            (\<exists>form2 \<in> set (deprefix L A (re_sub L regexp (strip pref) w) (Some (flag pref) # rq) fb True).
               f = form2\<lparr>prefix2 := Some pref, form_text := w\<rparr>)"
    by (subst (asm) deprefix.simps) (auto simp: Let_def)
  from f show ?thesis
  proof
    assume "f = (mk_form w (re_sub L regexp (strip pref) w))\<lparr>prefix := Some pref\<rparr>"
    then have "prefix f = Some (fst (pref, regexp))"
      by simp
    with e show ?thesis by blast
  next
    assume "\<exists>form2 \<in> set (deprefix L A (re_sub L regexp (strip pref) w) (Some (flag pref) # rq) fb True).
               f = form2\<lparr>prefix2 := Some pref, form_text := w\<rparr>"
    then obtain form2 where m: "form2 \<in> set (deprefix L A (re_sub L regexp (strip pref) w) (Some (flag pref) # rq) fb True)"
      and "f = form2\<lparr>prefix2 := Some pref, form_text := w\<rparr>"
      by blast
    then have "prefix f = prefix form2"
      by simp
    with deprefix_nested_prefix [OF m] show ?thesis
      by auto
  qed
qed


lemma affix_forms_shape:
  assumes "f \<in> set (x # (if a then S else []) @
              (if b then concat (map (\<lambda>form. form # (if a \<and> pc form then map (g form) (D form) else [])) P)
               else []))"
  shows "f = x \<or> f \<in> set S \<or> f \<in> set P \<or> (\<exists>form \<in> set P. pc form)"
  using assms by (auto split: if_splits)

lemma no_crossproduct_prefix:
  assumes nc: "\<forall>k leaf. prefixes A k = Some leaf \<longrightarrow> (\<forall>e \<in> set leaf. \<not> crossproduct (fst e))"
    and g: "g \<in> set (deprefix L A w rq fb False)"
  shows "\<not> prefix_crossproduct g"
proof -
  from deprefix_prefix [OF g] obtain w2 e where m: "e \<in> set (trie_lookup (prefixes A) w2)"
    and p: "prefix g = Some (fst e)"
    by blast
  from trie_lookup_leaf [OF m] obtain k leaf where "prefixes A k = Some leaf" and "e \<in> set leaf"
    by blast
  with nc have "\<not> crossproduct (fst e)"
    by blast
  with p show ?thesis
    by (simp add: prefix_crossproduct_def)
qed

lemma try_affix_forms_cases:
  assumes f: "f \<in> set (try_affix_forms L A w compoundpos)"
  shows "\<exists>sr fb pr. f = mk_form w w \<or> f \<in> set (desuffix L A w sr fb False False) \<or>
     f \<in> set (deprefix L A w pr fb False) \<or>
     (\<exists>form \<in> set (deprefix L A w pr fb False). prefix_crossproduct form)"
proof -
  define SA where "SA = (case compoundpos of Some p \<Rightarrow> p = END \<or> truthy (COMPOUNDPERMITFLAG (aff A)) | None \<Rightarrow> True)"
  define PA where "PA = (case compoundpos of Some p \<Rightarrow> p = BEGIN \<or> truthy (COMPOUNDPERMITFLAG (aff A)) | None \<Rightarrow> True)"
  define PR where "PR = (case compoundpos of Some p \<Rightarrow> if p = BEGIN then [] else [COMPOUNDPERMITFLAG (aff A)] | None \<Rightarrow> [])"
  define SR where "SR = (case compoundpos of Some p \<Rightarrow> if p = END then [] else [COMPOUNDPERMITFLAG (aff A)] | None \<Rightarrow> [])"
  define FB where "FB = (case compoundpos of
               Some p \<Rightarrow> if truthy (COMPOUNDFORBIDFLAG (aff A)) then [COMPOUNDFORBIDFLAG (aff A)] else []
             | None \<Rightarrow> [])"
  have eq: "try_affix_forms L A w compoundpos =
        mk_form w w # (if SA then desuffix L A w SR FB False False else []) @
        (if PA
         then concat (map (\<lambda>form. form #
                (if SA \<and> prefix_crossproduct form
                 then map (\<lambda>form2. form2\<lparr>prefix := prefix form\<rparr>)
                        (desuffix L A (stem form) SR FB False True)
                 else []))
               (deprefix L A w PR FB False))
         else [])"
    unfolding try_affix_forms_def Let_def SA_def PA_def PR_def SR_def FB_def by (rule refl)
  have "f = mk_form w w \<or> f \<in> set (desuffix L A w SR FB False False) \<or>
     f \<in> set (deprefix L A w PR FB False) \<or>
     (\<exists>form \<in> set (deprefix L A w PR FB False). prefix_crossproduct form)"
    using f unfolding eq
    by (rule affix_forms_shape [where a = SA and b = PA and pc = prefix_crossproduct
          and g = "\<lambda>form form2. form2\<lparr>prefix := prefix form\<rparr>"
          and D = "\<lambda>form. desuffix L A (stem form) SR FB False True"])
  then show ?thesis by blast
qed

lemma try_affix_forms_text:
  assumes nc: "\<forall>k leaf. prefixes A k = Some leaf \<longrightarrow> (\<forall>e \<in> set leaf. \<not> crossproduct (fst e))"
    and f: "f \<in> set (try_affix_forms L A w compoundpos)"
  shows "form_text f = w"
proof -
  from try_affix_forms_cases [OF f] obtain sr fb pr where
    "f = mk_form w w \<or> f \<in> set (desuffix L A w sr fb False False) \<or>
     f \<in> set (deprefix L A w pr fb False) \<or>
     (\<exists>form \<in> set (deprefix L A w pr fb False). prefix_crossproduct form)"
    by blast
  then consider "f = mk_form w w" | "f \<in> set (desuffix L A w sr fb False False)"
    | "f \<in> set (deprefix L A w pr fb False)"
    using no_crossproduct_prefix [OF nc] by blast
  then show ?thesis
  proof cases
    case 1
    then show ?thesis by (simp add: mk_form_def)
  next
    case 2
    then show ?thesis by (rule desuffix_text)
  next
    case 3
    then show ?thesis by (rule deprefix_text)
  qed
qed

lemma word_forms_text:
  assumes "\<forall>k leaf. prefixes A k = Some leaf \<longrightarrow> (\<forall>e \<in> set leaf. \<not> crossproduct (fst e))"
    and "f \<in> set (word_forms L A w captype compoundpos ns)"
  shows "form_text f = w"
proof -
  from assms(2) have "f \<in> set (try_affix_forms L A w compoundpos)"
    using word_forms_loop_subset [of L A captype compoundpos ns "try_affix_forms L A w compoundpos"]
    by (auto simp: word_forms_def)
  with assms(1) show ?thesis
    by (rule try_affix_forms_text)
qed

lemma keep_good_subset: "c \<in> set (fst (keep_good L A cs)) \<Longrightarrow> c \<in> set cs"
proof (induction cs)
  case Nil
  then show ?case by simp
next
  case (Cons x xs)
  show ?case
  proof (cases "bad_compound L A x")
    case (Inl e)
    with Cons.prems show ?thesis by simp
  next
    case (Inr b)
    with Cons.prems
    have "c \<in> set (fst (gen_chain (gen_of_list (if b then [] else [x])) (keep_good L A xs)))"
      by simp
    with gen_chain_items [of "gen_of_list (if b then [] else [x])" "keep_good L A xs"]
    have "c \<in> set (if b then [] else [x]) \<or> c \<in> set (fst (keep_good L A xs))"
      by (auto simp: gen_of_list_items)
    with Cons.IH show ?thesis
      by (auto split: if_splits)
  qed
qed

lemma compound_parts_source:
  assumes "c \<in> set (fst (compound_parts L A word ns))"
  shows "c \<in> set (fst (compound_parts_by_flags L A (recursion_limit L) word [] ns)) \<or>
         c \<in> set (fst (compound_parts_by_rules L A (recursion_limit L) word [] (compoundrules A)))"
proof -
  define cands where "cands = compound_candidates L A word ns"
  define F where "F = (if truthy (COMPOUNDBEGIN (aff A)) \<or> truthy (COMPOUNDFLAG (aff A))
           then compound_parts_by_flags L A (recursion_limit L) word [] ns else gen_of_list [])"
  define R where "R = (if compoundrules A \<noteq> []
           then compound_parts_by_rules L A (recursion_limit L) word [] (compoundrules A)
           else gen_of_list [])"
  from assms have "c \<in> set (fst (gen_chain (keep_good L A (fst cands)) ([], snd cands)))"
    by (simp add: compound_parts_def Let_def cands_def)
  with gen_chain_items [of "keep_good L A (fst cands)" "([], snd cands)"]
  have "c \<in> set (fst (keep_good L A (fst cands)))"
    by auto
  then have "c \<in> set (fst cands)"
    by (rule keep_good_subset)
  moreover have "cands = gen_chain F R"
    by (simp add: cands_def compound_candidates_def F_def R_def)
  ultimately have "c \<in> set (fst F) \<or> c \<in> set (fst R)"
    using gen_chain_items [of F R] by auto
  then show ?thesis
    by (auto simp: F_def R_def gen_of_list_items split: if_splits)
qed

lemma compound_parts_two_parts:
  "c \<in> set (fst (compound_parts L A word ns)) \<Longrightarrow> 2 \<le> length c"
  using compound_parts_source by_flags_two_parts by_rules_two_parts by blast

lemma compound_parts_texts:
  assumes "\<forall>k leaf. prefixes A k = Some leaf \<longrightarrow> (\<forall>e \<in> set leaf. \<not> crossproduct (fst e))"
    and "c \<in> set (fst (compound_parts L A word ns))"
  shows "concat (map form_text c) = word"
proof -
  have kept: "\<forall>w compoundpos. \<forall>f \<in> set (word_forms L A w NO compoundpos ns). form_text f = w"
    using word_forms_text [OF assms(1)] by blast
  from compound_parts_source [OF assms(2)] show ?thesis
  proof
    assume "c \<in> set (fst (compound_parts_by_flags L A (recursion_limit L) word [] ns))"
    then show ?thesis by (rule by_flags_texts [OF kept])
  next
    assume "c \<in> set (fst (compound_parts_by_rules L A (recursion_limit L) word [] (compoundrules A)))"
    then show ?thesis by (rule by_rules_texts)
  qed
qed

lemma compound_parts_bound:
  assumes "COMPOUNDWORDSMAX (aff A) = Some k" and "0 < k"
    and "c \<in> set (fst (compound_parts L A word ns))"
  shows "length c \<le> Suc k"
proof -
  from compound_parts_source [OF assms(3)] show ?thesis
  proof
    assume "c \<in> set (fst (compound_parts_by_flags L A (recursion_limit L) word [] ns))"
    from by_flags_bound [OF assms(1,2) this] show ?thesis by simp
  next
    assume "c \<in> set (fst (compound_parts_by_rules L A (recursion_limit L) word [] (compoundrules A)))"
    from by_rules_bound [OF assms(1,2) this] show ?thesis by simp
  qed
qed

text \<open>
  C5. The claim is that with COMPOUNDWORDSMAX set every compound of the search has at most
  COMPOUNDWORDSMAX parts. The search tests \<open>len(prev_parts) >= COMPOUNDWORDSMAX\<close> after it
  has yielded the rest of the word as the last part: with \<open>COMPOUNDWORDSMAX 2\<close> and the
  dictionary \<open>foo/Z\<close>, \<open>bar/Z\<close>, \<open>baz/Z\<close> the search yields the compound of the three
  parts \<open>foo\<close>, \<open>bar\<close>, \<open>baz\<close>, the filter keeps it, and \<open>lookup('foobarbaz')\<close> is true.
\<close>

theorem compound_words_max_exceeded:
  "COMPOUNDWORDSMAX (aff max_an) = Some 2 \<and>
   compound_parts_by_flags max_lib max_an (recursion_limit max_lib) ''foobarbaz'' [] True =
     ([[mk_form ''foo'' ''foo'', mk_form ''bar'' ''bar'', mk_form ''baz'' ''baz'']], None) \<and>
   compound_parts max_lib max_an ''foobarbaz'' True =
     ([[mk_form ''foo'' ''foo'', mk_form ''bar'' ''bar'', mk_form ''baz'' ''baz'']], None) \<and>
   lookup max_lib max_an ''foobarbaz'' True True = Inr True"
  by code_simp

text \<open>
  C6. The claim is that the \<open>text\<close> fields of every compound of \<open>compound_parts\<close>,
  concatenated, equal the input word. A form that \<open>try_affix_forms\<close> builds from a prefix
  and a cross-product suffix keeps as \<open>text\<close> the word without its prefix: the nested
  strippings pass \<open>text=word\<close> to \<open>replace\<close>, the cross-product one does not. On the
  input \<open>unlockedfoo\<close> the one compound yielded has the texts \<open>locked\<close> and \<open>foo\<close>.
\<close>

theorem compound_text_not_input:
  "map (map form_text) (fst (compound_parts cross_lib cross_an ''unlockedfoo'' True)) =
     [[''locked'', ''foo'']] \<and>
   concat [''locked'', ''foo''] \<noteq> ''unlockedfoo'' \<and>
   map (\<lambda>f. (form_text f, stem f)) (try_affix_forms cross_lib cross_an ''unlocked'' (Some BEGIN)) =
     [(''unlocked'', ''unlocked''), (''unlocked'', ''unlock''), (''unlocked'', ''locked''),
      (''locked'', ''lock'')]"
  by code_simp

section \<open>The compound filter\<close>

text \<open>
  C9. The claim is that \<open>bad_compound\<close> is true only if a check holds for a pair whose
  left part strictly precedes its right part. The inner loop runs over \<open>compound[1:]\<close>
  for every left part, so a part is also paired with itself and with the parts before it.
  For the compound \<open>ab\<close>, \<open>oo\<close>, \<open>cd\<close> of the input \<open>aboocd\<close>, with
  CHECKCOMPOUNDTRIPLE, no check holds for any of the three pairs in order and no left part
  is forbidden, yet \<open>oo\<close> paired with itself gives \<open>ooo\<close>: the compound is rejected and
  \<open>lookup('aboocd')\<close> is false.
\<close>

theorem bad_compound_pairs_part_with_itself:
  "fst (compound_candidates triple_lib triple_an ''aboocd'' True) =
     [[mk_form ''ab'' ''ab'', mk_form ''oo'' ''oo'', mk_form ''cd'' ''cd'']] \<and>
   pair_check triple_lib triple_an (mk_form ''ab'' ''ab'') (mk_form ''oo'' ''oo'') = Inr False \<and>
   pair_check triple_lib triple_an (mk_form ''ab'' ''ab'') (mk_form ''cd'' ''cd'') = Inr False \<and>
   pair_check triple_lib triple_an (mk_form ''oo'' ''oo'') (mk_form ''cd'' ''cd'') = Inr False \<and>
   \<not> forbid_at triple_lib triple_an (mk_form ''ab'' ''ab'') \<and>
   \<not> forbid_at triple_lib triple_an (mk_form ''oo'' ''oo'') \<and>
   pair_check triple_lib triple_an (mk_form ''oo'' ''oo'') (mk_form ''oo'' ''oo'') = Inr True \<and>
   bad_compound triple_lib triple_an
     [mk_form ''ab'' ''ab'', mk_form ''oo'' ''oo'', mk_form ''cd'' ''cd''] = Inr True \<and>
   compound_parts triple_lib triple_an ''aboocd'' True = ([], None) \<and>
   lookup triple_lib triple_an ''aboocd'' True True = Inr False"
  by code_simp












end
